theory Spec2Isabelle
  imports Main "HOL-Library.Multiset" "HOL-Library.Sublist"
begin

section \<open>SonarCloud issues exporter (\<open>get-issues.js\<close>)\<close>

text \<open>
  The script is one pipeline: \<open>fetchAllIssues\<close> pages through the search endpoint,
  \<open>writeBySeverity\<close> groups the records by severity, sorts every group, cuts it into
  chunks of 20 and writes one Markdown file per chunk, and \<open>main\<close> turns any exception
  into exit status 1. The lines printed with \<open>console.log\<close> are left out.

  Strings are lists of 8-bit characters (the UTF-8 bytes of the JavaScript string). The
  string operations of the script look for the ASCII characters \<open>:\<close>, \<open>|\<close>, CR and LF
  only, and an ASCII byte never occurs inside a multi-byte UTF-8 sequence, so they act on
  the bytes as they act on the UTF-16 code units.
\<close>

subsection \<open>Data model\<close>

text \<open>
  An issue as the remote service sends it. \<open>line\<close> and \<open>creationDate\<close> may be absent
  (\<open>it.line ?? ...\<close>, \<open>it.creationDate ? ... : ""\<close>); the other fields are read without a
  guard and are strings. A line number is a JSON integer.
\<close>

record issue =
  key :: string
  component :: string
  type :: string
  rule :: string
  severity :: string
  status :: string
  line :: "int option"
  message :: string
  creationDate :: "string option"

text \<open>The body of a successful response, after \<open>res.json()\<close>: every field may be absent.\<close>

record paging =
  paging_total :: "int option"

record data =
  total :: "int option"
  paging :: "paging option"
  issues :: "issue list option"

text \<open>
  What \<open>await fetch(url, ...)\<close> gives: the promise is rejected (a network failure, with
  its message), or it is fulfilled with a response, which has a status code, a body
  (\<open>res.text()\<close>) and the outcome of \<open>res.json()\<close> (the parser's message when the body
  is not JSON).
\<close>

datatype response = Response (res_status: nat) (res_text: string) (res_json: "string + data")

datatype fetched = Rejected string | Fulfilled response

text \<open>An exception is a JavaScript \<open>Error\<close>; \<open>main\<close> reads its message only.\<close>

datatype error = Error (msg: string)

text \<open>\<open>total\<close> starts as \<open>Infinity\<close> and is a declared count afterwards.\<close>

datatype count = Infinity | Declared int

subsection \<open>Constants and host functions\<close>

definition ORG :: string where
  "ORG = ''useago''"

definition PROJECT_KEY :: string where
  "PROJECT_KEY = ''useago_ago-chat''"

definition PAGE_SIZE :: nat where
  "PAGE_SIZE = 500"

definition SEVERITIES :: "string list" where
  "SEVERITIES = [''BLOCKER'', ''CRITICAL'', ''MAJOR'', ''MINOR'', ''INFO'']"

definition ISSUES_PER_FILE :: nat where
  "ISSUES_PER_FILE = 20"

definition LF :: char where
  "LF = CHR 0x0A"

definition CR :: char where
  "CR = CHR 0x0D"

text \<open>\<open>String(n)\<close> for an integer: decimal digits, with a minus sign below zero.\<close>

fun digits :: "nat \<Rightarrow> string" where
  "digits n =
     (if n < 10 then [''0123456789'' ! n] else digits (n div 10) @ [''0123456789'' ! (n mod 10)])"

declare digits.simps [simp del]

definition String_nat :: "nat \<Rightarrow> string" where
  "String_nat n = digits n"

definition String_int :: "int \<Rightarrow> string" where
  "String_int i = (if i < 0 then CHR ''-'' # digits (nat (- i)) else digits (nat i))"

subsection \<open>The fetcher\<close>

text \<open>\<open>res.ok\<close>: the status is in the range 200 to 299.\<close>

definition ok :: "response \<Rightarrow> bool" where
  "ok res = (200 \<le> res_status res \<and> res_status res \<le> 299)"

text \<open>\<open>data.total ?? data.paging?.total ?? 0\<close> and \<open>data.issues ?? []\<close>.\<close>

definition total_of :: "data \<Rightarrow> int" where
  "total_of d =
     (case total d of
        Some t \<Rightarrow> t
      | None \<Rightarrow>
          (case paging d of
             None \<Rightarrow> 0
           | Some pg \<Rightarrow> (case paging_total pg of Some t \<Rightarrow> t | None \<Rightarrow> 0)))"

definition issues_of :: "data \<Rightarrow> issue list" where
  "issues_of d = (case issues d of Some xs \<Rightarrow> xs | None \<Rightarrow> [])"

text \<open>The loop condition \<open>(page - 1) * PAGE_SIZE < total\<close>.\<close>

fun covers :: "nat \<Rightarrow> count \<Rightarrow> bool" where
  "covers page Infinity = True"
| "covers page (Declared t) = (int ((page - 1) * PAGE_SIZE) < t)"

text \<open>
  The \<open>while\<close> loop of \<open>fetchAllIssues\<close>. The remote service is a function from the page
  number to what the request for that page gives: the loop asks for each page at most
  once, in increasing order, so this covers every sequence of responses. The state is
  \<open>page\<close>, \<open>total\<close>, \<open>all\<close> and the pages requested so far. The loop need not end (a
  service may declare a larger total on every page), so not returning is \<open>None\<close>.
  The result is the list of pages requested and either the exception thrown or \<open>all\<close>.
  A request is named by its page number, the other parameters of \<open>buildUrl\<close> being
  constants of the run. The pause of 100 ms after a full page changes no value and is
  left out.
\<close>

partial_function (option) fetch_loop ::
  "(nat \<Rightarrow> fetched) \<Rightarrow> nat \<Rightarrow> count \<Rightarrow> issue list \<Rightarrow> nat list
     \<Rightarrow> (nat list \<times> (error + issue list)) option" where
  [code]: "fetch_loop srv page tot all reqs =
     (if covers page tot then
        (case srv page of
           Rejected m \<Rightarrow> Some (reqs @ [page], Inl (Error m))
         | Fulfilled res \<Rightarrow>
             if \<not> ok res then
               Some (reqs @ [page],
                 Inl (Error (''SonarCloud API error '' @ String_nat (res_status res) @ '': '' @ res_text res)))
             else
               (case res_json res of
                  Inl m \<Rightarrow> Some (reqs @ [page], Inl (Error m))
                | Inr d \<Rightarrow>
                    fetch_loop srv (page + 1) (Declared (total_of d)) (all @ issues_of d)
                      (reqs @ [page])))
      else Some (reqs, Inr all))"

definition fetchAllIssues :: "(nat \<Rightarrow> fetched) \<Rightarrow> (nat list \<times> (error + issue list)) option" where
  "fetchAllIssues srv = fetch_loop srv 1 Infinity [] []"

subsection \<open>Host functions of the writer\<close>

text \<open>
  What the script takes from its environment: the \<open>BRANCH\<close> variable (empty when it is
  not set), \<open>String.prototype.localeCompare\<close> and the \<open>Date\<close> conversion
  \<open>new Date(s).toISOString()\<close>, which throws a \<open>RangeError\<close> when \<open>s\<close> is not a date
  (\<open>None\<close> here).
\<close>

record host =
  BRANCH :: string
  localeCompare :: "string \<Rightarrow> string \<Rightarrow> int"
  toISOString :: "string \<Rightarrow> string option"

subsection \<open>String helpers\<close>

text \<open>\<open>component.indexOf(":")\<close>, with \<open>None\<close> for -1.\<close>

fun indexOf :: "char \<Rightarrow> string \<Rightarrow> nat option" where
  "indexOf c [] = None"
| "indexOf c (x # xs) = (if x = c then Some 0 else map_option Suc (indexOf c xs))"

definition extractFilePath :: "string \<Rightarrow> string" where
  "extractFilePath cmpt =
     (case indexOf (CHR '':'') cmpt of Some idx \<Rightarrow> drop (idx + 1) cmpt | None \<Rightarrow> cmpt)"

text \<open>\<open>.replace(/\|/g, "\\|")\<close>: a backslash before every pipe.\<close>

fun escape_pipes :: "string \<Rightarrow> string" where
  "escape_pipes [] = []"
| "escape_pipes (c # cs) =
     (if c = CHR ''|'' then CHR 0x5C # CHR ''|'' # escape_pipes cs else c # escape_pipes cs)"

text \<open>\<open>.replace(/\r?\n/g, "<br>")\<close>: every LF, with the CR before it when there is one.\<close>

fun replace_newlines :: "string \<Rightarrow> string" where
  "replace_newlines [] = []"
| "replace_newlines [c] = (if c = LF then ''<br>'' else [c])"
| "replace_newlines (c # d # ds) =
     (if c = LF then ''<br>'' @ replace_newlines (d # ds)
      else if c = CR \<and> d = LF then ''<br>'' @ replace_newlines ds
      else c # replace_newlines (d # ds))"

definition mdEscape :: "string \<Rightarrow> string" where
  "mdEscape s = replace_newlines (escape_pipes s)"

text \<open>
  \<open>URLSearchParams.toString()\<close> on one value: ASCII letters, digits and \<open>*-._\<close> stay,
  a space becomes \<open>+\<close>, every other byte becomes \<open>%XX\<close>.
\<close>

definition hex_digit :: "nat \<Rightarrow> char" where
  "hex_digit n = ''0123456789ABCDEF'' ! n"

definition url_safe :: "char \<Rightarrow> bool" where
  "url_safe c =
     (let n = (of_char c :: nat) in
      (48 \<le> n \<and> n \<le> 57) \<or> (65 \<le> n \<and> n \<le> 90) \<or> (97 \<le> n \<and> n \<le> 122)
      \<or> c = CHR ''*'' \<or> c = CHR ''-'' \<or> c = CHR ''.'' \<or> c = CHR ''_'')"

definition urlencode_char :: "char \<Rightarrow> string" where
  "urlencode_char c =
     (if url_safe c then [c]
      else if c = CHR '' '' then ''+''
      else [CHR ''%'', hex_digit ((of_char c :: nat) div 16), hex_digit ((of_char c :: nat) mod 16)])"

definition urlencode :: "string \<Rightarrow> string" where
  "urlencode s = concat (map urlencode_char s)"

definition issueUrl :: "string \<Rightarrow> string" where
  "issueUrl issueKey =
     ''https://sonarcloud.io/project/issues?'' @ ''id='' @ urlencode PROJECT_KEY
       @ ''&issues='' @ urlencode issueKey @ ''&open='' @ urlencode issueKey"

text \<open>\<open>rows.join("\n")\<close>.\<close>

fun join_lines :: "string list \<Rightarrow> string" where
  "join_lines [] = []"
| "join_lines [r] = r"
| "join_lines (r # r' # rs) = r @ [LF] @ join_lines (r' # rs)"

subsection \<open>The renderer\<close>

definition on_branch :: "host \<Rightarrow> string" where
  "on_branch h = (if BRANCH h \<noteq> [] then '' on branch '' @ BRANCH h else [])"

definition headerFor :: "host \<Rightarrow> string \<Rightarrow> string" where
  "headerFor h sev =
     ''# '' @ sev @ '' issues for '' @ ORG @ ''/'' @ PROJECT_KEY @ on_branch h @ [LF]"

definition placeholder :: string where
  "placeholder = ''_No unresolved issues._'' @ [LF]"

definition table_header :: string where
  "table_header =
     ''| Key | Type | Rule | Severity | Status | File | Line | Message | Created |'' @ [LF] @
     ''| --- | ---- | ---- | -------- | ------ | ---- | ---- | ------- | ------- |'' @ [LF]"

text \<open>
  The \<open>created\<close> cell: empty when \<open>creationDate\<close> is absent or the empty string (both
  falsy), the first ten characters of the ISO string otherwise.
\<close>

definition created_of :: "host \<Rightarrow> issue \<Rightarrow> error + string" where
  "created_of h it =
     (case creationDate it of
        None \<Rightarrow> Inr []
      | Some s \<Rightarrow>
          if s = [] then Inr []
          else (case toISOString h s of
                  None \<Rightarrow> Inl (Error ''Invalid time value'')
                | Some stamp \<Rightarrow> Inr (take 10 stamp)))"

text \<open>One row of the table: the callback of \<open>issues.map\<close> in \<open>renderTable\<close>.\<close>

definition renderRow :: "host \<Rightarrow> issue \<Rightarrow> error + string" where
  "renderRow h it =
     (let file = extractFilePath (component it);
          ln = (case line it of Some n \<Rightarrow> String_int n | None \<Rightarrow> [])
      in case created_of h it of
           Inl e \<Rightarrow> Inl e
         | Inr created \<Rightarrow>
             let keyLink = ''['' @ key it @ '']('' @ issueUrl (key it) @ '')''
             in Inr (''| '' @ keyLink @ '' | '' @ mdEscape (type it) @ '' | '' @ mdEscape (rule it)
                  @ '' | '' @ mdEscape (severity it) @ '' | '' @ mdEscape (status it)
                  @ '' | '' @ mdEscape file @ '' | '' @ mdEscape ln
                  @ '' | '' @ mdEscape (message it) @ '' | '' @ mdEscape created @ '' |''))"

text \<open>\<open>issues.map(...)\<close>: the rows in order, or the first exception.\<close>

fun renderRows :: "host \<Rightarrow> issue list \<Rightarrow> error + string list" where
  "renderRows h [] = Inr []"
| "renderRows h (it # its) =
     (case renderRow h it of
        Inl e \<Rightarrow> Inl e
      | Inr r \<Rightarrow> (case renderRows h its of Inl e \<Rightarrow> Inl e | Inr rs \<Rightarrow> Inr (r # rs)))"

definition renderTable :: "host \<Rightarrow> issue list \<Rightarrow> error + string" where
  "renderTable h its =
     (if length its = 0 then Inr placeholder
      else (case renderRows h its of
              Inl e \<Rightarrow> Inl e
            | Inr rows \<Rightarrow> Inr (table_header @ join_lines rows @ [LF])))"

subsection \<open>The grouper and sorter\<close>

text \<open>
  \<open>bySeverity\<close> is a JavaScript \<open>Map\<close>: keys in insertion order, each with its array.
  It starts with an empty array for each of the known severities. For each issue the
  loop adds an empty array under a severity that has none yet, and pushes the issue.
\<close>

type_synonym buckets = "(string \<times> issue list) list"

definition has :: "buckets \<Rightarrow> string \<Rightarrow> bool" where
  "has m k = (k \<in> set (map fst m))"

definition push :: "buckets \<Rightarrow> string \<Rightarrow> issue \<Rightarrow> buckets" where
  "push m k it = map (\<lambda>(s, b). if s = k then (s, b @ [it]) else (s, b)) m"

definition group_step :: "buckets \<Rightarrow> issue \<Rightarrow> buckets" where
  "group_step m it =
     push (if \<not> has m (severity it) then m @ [(severity it, [])] else m) (severity it) it"

definition group_issues :: "issue list \<Rightarrow> buckets" where
  "group_issues its = foldl group_step (map (\<lambda>s. (s, [])) SEVERITIES) its"

text \<open>\<open>bySeverity.get(sev) || []\<close>.\<close>

definition get_bucket :: "buckets \<Rightarrow> string \<Rightarrow> issue list" where
  "get_bucket m sev = (case map_of m sev of Some b \<Rightarrow> b | None \<Rightarrow> [])"

text \<open>The comparator given to \<open>arr.sort\<close>.\<close>

definition line_or_0 :: "issue \<Rightarrow> int" where
  "line_or_0 it = (case line it of Some n \<Rightarrow> n | None \<Rightarrow> 0)"

definition compareIssues :: "host \<Rightarrow> issue \<Rightarrow> issue \<Rightarrow> int" where
  "compareIssues h a b =
     (let af = extractFilePath (component a);
          bf = extractFilePath (component b)
      in if af \<noteq> bf then localeCompare h af bf
         else
           let al = line_or_0 a; bl = line_or_0 b
           in if al \<noteq> bl then al - bl
              else localeCompare h (key a) (key b))"

text \<open>
  \<open>Array.prototype.sort\<close> with a comparator is a stable sort (ECMAScript 2019, hence
  Node 18): an insertion sort that puts an element before the first one it does not
  sort after.
\<close>

fun insert_by :: "('a \<Rightarrow> 'a \<Rightarrow> int) \<Rightarrow> 'a \<Rightarrow> 'a list \<Rightarrow> 'a list" where
  "insert_by c x [] = [x]"
| "insert_by c x (y # ys) = (if c x y \<le> 0 then x # y # ys else y # insert_by c x ys)"

fun array_sort :: "('a \<Rightarrow> 'a \<Rightarrow> int) \<Rightarrow> 'a list \<Rightarrow> 'a list" where
  "array_sort c [] = []"
| "array_sort c (x # xs) = insert_by c x (array_sort c xs)"

definition sort_buckets :: "host \<Rightarrow> buckets \<Rightarrow> buckets" where
  "sort_buckets h m = map (\<lambda>(s, b). (s, array_sort (compareIssues h) b)) m"

subsection \<open>The writer\<close>

text \<open>
  A written file is its name in the working directory and its content; the file system
  is taken to accept every write. A loop of the writer gives the files written, in
  order, and the exception that stopped it, if any.
\<close>

type_synonym md_file = "string \<times> string"

definition slice :: "nat \<Rightarrow> nat \<Rightarrow> 'a list \<Rightarrow> 'a list" where
  "slice start stop xs = take (stop - start) (drop start xs)"

text \<open>\<open>Math.ceil(totalIssues / ISSUES_PER_FILE)\<close>.\<close>

definition numFiles_of :: "nat \<Rightarrow> nat" where
  "numFiles_of totalIssues = (totalIssues + ISSUES_PER_FILE - 1) div ISSUES_PER_FILE"

definition chunk_of :: "issue list \<Rightarrow> nat \<Rightarrow> issue list" where
  "chunk_of allIssues i =
     (let start = i * ISSUES_PER_FILE;
          stop = min (start + ISSUES_PER_FILE) (length allIssues)
      in slice start stop allIssues)"

text \<open>The chunks of a bucket, in the order the inner loop cuts them.\<close>

definition chunks :: "issue list \<Rightarrow> issue list list" where
  "chunks allIssues = map (chunk_of allIssues) [0 ..< numFiles_of (length allIssues)]"

definition part_header :: "host \<Rightarrow> string \<Rightarrow> nat \<Rightarrow> nat \<Rightarrow> string" where
  "part_header h sev fileNumber numFiles =
     ''# '' @ sev @ '' issues for '' @ ORG @ ''/'' @ PROJECT_KEY @ on_branch h
       @ '' (Part '' @ String_nat fileNumber @ ''/'' @ String_nat numFiles @ '')'' @ [LF]"

text \<open>The inner loop \<open>for (let i = 0; i < numFiles; i++)\<close>, over the indices left.\<close>

fun write_chunks :: "host \<Rightarrow> string \<Rightarrow> issue list \<Rightarrow> nat \<Rightarrow> nat list \<Rightarrow> md_file list \<times> error option" where
  "write_chunks h sev allIssues numFiles [] = ([], None)"
| "write_chunks h sev allIssues numFiles (i # rest) =
     (let chunk = chunk_of allIssues i;
          fileNumber = i + 1;
          filename = sev @ String_nat fileNumber @ ''.md'';
          header = part_header h sev fileNumber numFiles
      in case renderTable h chunk of
           Inl e \<Rightarrow> ([], Some e)
         | Inr table \<Rightarrow>
             (case write_chunks h sev allIssues numFiles rest of
                (fs, r) \<Rightarrow> ((filename, header @ [LF] @ table) # fs, r)))"

text \<open>The body of the outer loop, for one severity.\<close>

definition write_severity :: "host \<Rightarrow> string \<Rightarrow> issue list \<Rightarrow> md_file list \<times> error option" where
  "write_severity h sev allIssues =
     (let totalIssues = length allIssues
      in if totalIssues = 0 then
           (case renderTable h [] of
              Inl e \<Rightarrow> ([], Some e)
            | Inr table \<Rightarrow> ([(sev @ ''.md'', headerFor h sev @ [LF] @ table)], None))
         else
           let numFiles = numFiles_of totalIssues
           in write_chunks h sev allIssues numFiles [0 ..< numFiles])"

text \<open>The outer loop \<open>for (const sev of SEVERITIES)\<close>.\<close>

fun write_all :: "host \<Rightarrow> buckets \<Rightarrow> string list \<Rightarrow> md_file list \<times> error option" where
  "write_all h m [] = ([], None)"
| "write_all h m (sev # sevs) =
     (case write_severity h sev (get_bucket m sev) of
        (fs, Some e) \<Rightarrow> (fs, Some e)
      | (fs, None) \<Rightarrow> (case write_all h m sevs of (gs, r) \<Rightarrow> (fs @ gs, r)))"

definition writeBySeverity :: "host \<Rightarrow> issue list \<Rightarrow> md_file list \<times> error option" where
  "writeBySeverity h its = write_all h (sort_buckets h (group_issues its)) SEVERITIES"

subsection \<open>The entry point\<close>

text \<open>
  What a run leaves behind: the pages requested, the files written, the message given
  to \<open>console.error\<close> and the exit status (0 when \<open>main\<close> returns, 1 from
  \<open>process.exit(1)\<close> in the \<open>catch\<close>). \<open>main\<close> runs only when the token is set.
\<close>

record outcome =
  requested :: "nat list"
  written :: "md_file list"
  reported :: "string option"
  exit_status :: nat

definition main :: "host \<Rightarrow> (nat \<Rightarrow> fetched) \<Rightarrow> outcome option" where
  "main h srv =
     (case fetchAllIssues srv of
        None \<Rightarrow> None
      | Some (reqs, Inl e) \<Rightarrow>
          Some \<lparr>requested = reqs, written = [], reported = Some (msg e), exit_status = 1\<rparr>
      | Some (reqs, Inr its) \<Rightarrow>
          (case writeBySeverity h its of
             (fs, Some e) \<Rightarrow>
               Some \<lparr>requested = reqs, written = fs, reported = Some (msg e), exit_status = 1\<rparr>
           | (fs, None) \<Rightarrow>
               Some \<lparr>requested = reqs, written = fs, reported = None, exit_status = 0\<rparr>))"

subsection \<open>Vocabulary of the properties\<close>

text \<open>
  What a request gives the loop when it goes through: the parsed body of a response
  with a success status. A page that goes through makes the loop go on when its total
  is beyond the records of the pages so far, and makes it stop otherwise.
\<close>

definition page_data :: "fetched \<Rightarrow> data option" where
  "page_data f =
     (case f of
        Rejected m \<Rightarrow> None
      | Fulfilled res \<Rightarrow>
          if ok res then (case res_json res of Inl m \<Rightarrow> None | Inr d \<Rightarrow> Some d) else None)"

definition page_issues :: "(nat \<Rightarrow> fetched) \<Rightarrow> nat \<Rightarrow> issue list" where
  "page_issues srv p = (case page_data (srv p) of Some d \<Rightarrow> issues_of d | None \<Rightarrow> [])"

definition continues :: "(nat \<Rightarrow> fetched) \<Rightarrow> nat \<Rightarrow> bool" where
  "continues srv p =
     (case page_data (srv p) of Some d \<Rightarrow> int (p * PAGE_SIZE) < total_of d | None \<Rightarrow> False)"

definition stops :: "(nat \<Rightarrow> fetched) \<Rightarrow> nat \<Rightarrow> bool" where
  "stops srv p =
     (case page_data (srv p) of Some d \<Rightarrow> \<not> int (p * PAGE_SIZE) < total_of d | None \<Rightarrow> False)"


text \<open>The first line of a file: what comes before the first LF.\<close>

definition first_line :: "string \<Rightarrow> string" where
  "first_line s = takeWhile (\<lambda>c. c \<noteq> LF) s"

text \<open>
  Every pipe of a cell is escaped: it has a backslash right before it. The flag says
  whether the character before the text is a backslash.
\<close>

fun no_raw_pipe :: "bool \<Rightarrow> string \<Rightarrow> bool" where
  "no_raw_pipe esc [] = True"
| "no_raw_pipe esc (c # cs) = ((c = CHR ''|'' \<longrightarrow> esc) \<and> no_raw_pipe (c = CHR 0x5C) cs)"

definition pipes_escaped :: "string \<Rightarrow> bool" where
  "pipes_escaped s = no_raw_pipe False s"

text \<open>
  The escaping as the specification words it, in one pass over the text: each pipe
  becomes a backslash and the pipe, each line ending (LF, or CR followed by LF) becomes
  the marker \<open><br>\<close>, every other character stays.
\<close>

fun escape_each :: "string \<Rightarrow> string" where
  "escape_each [] = []"
| "escape_each [c] =
     (if c = CHR ''|'' then [CHR 0x5C, CHR ''|''] else if c = LF then ''<br>'' else [c])"
| "escape_each (c # d # ds) =
     (if c = CHR ''|'' then [CHR 0x5C, CHR ''|''] @ escape_each (d # ds)
      else if c = LF then ''<br>'' @ escape_each (d # ds)
      else if c = CR \<and> d = LF then ''<br>'' @ escape_each ds
      else c # escape_each (d # ds))"

subsection \<open>Example inputs\<close>

text \<open>An issue with a pipe and a CRLF in its message.\<close>

definition example_issue :: "string \<Rightarrow> string \<Rightarrow> string \<Rightarrow> int option \<Rightarrow> issue" where
  "example_issue k sev path ln =
     \<lparr>key = k, component = ''useago_ago-chat:'' @ path, type = ''BUG'', rule = ''typescript:S1234'',
      severity = sev, status = ''OPEN'', line = ln,
      message = ''a|b'' @ [CR, LF] @ ''c'', creationDate = Some ''2024-01-15T10:20:30+0100''\<rparr>"

text \<open>A response with status 200 and a JSON body.\<close>

definition ok_page :: "data \<Rightarrow> fetched" where
  "ok_page d = Fulfilled (Response 200 [] (Inr d))"

text \<open>Three pages of 500, 500 and 200 records, each declaring a total of 1200.\<close>

definition srv_1200 :: "nat \<Rightarrow> fetched" where
  "srv_1200 p =
     ok_page \<lparr>total = Some 1200, paging = None,
       issues = Some (replicate (if p \<le> 2 then 500 else 200)
                  (example_issue ''AX1'' ''MAJOR'' ''src/index.ts'' (Some (int p))))\<rparr>"

text \<open>The same service, answering the second request with status 503.\<close>

definition srv_second_fails :: "nat \<Rightarrow> fetched" where
  "srv_second_fails p =
     (if p = 2 then Fulfilled (Response 503 ''Service Unavailable'' (Inl ''Unexpected token S''))
      else srv_1200 p)"

text \<open>
  A service whose first body has a total of 600 and no \<open>issues\<close>, and whose second body
  has one issue and no total, neither at the top nor under \<open>paging\<close>.
\<close>

definition srv_malformed :: "nat \<Rightarrow> fetched" where
  "srv_malformed p =
     (if p = 1 then ok_page \<lparr>total = Some 600, paging = None, issues = None\<rparr>
      else ok_page \<lparr>total = None, paging = Some \<lparr>paging_total = None\<rparr>,
             issues = Some [example_issue ''AX2'' ''INFO'' ''src/a.ts'' None]\<rparr>)"

text \<open>
  A host with no branch set, a byte-wise lexicographic \<open>localeCompare\<close> and a \<open>Date\<close>
  that takes a timestamp starting with a four-digit year and prints it unchanged.
\<close>

fun lex_compare :: "string \<Rightarrow> string \<Rightarrow> int" where
  "lex_compare [] [] = 0"
| "lex_compare [] (y # ys) = - 1"
| "lex_compare (x # xs) [] = 1"
| "lex_compare (x # xs) (y # ys) =
     (if x = y then lex_compare xs ys
      else if (of_char x :: nat) < of_char y then - 1 else 1)"

definition is_digit :: "char \<Rightarrow> bool" where
  "is_digit c = (48 \<le> (of_char c :: nat) \<and> (of_char c :: nat) \<le> 57)"

definition example_host :: host where
  "example_host =
     \<lparr>BRANCH = [], localeCompare = lex_compare,
      toISOString = (\<lambda>s. if 4 \<le> length s \<and> list_all is_digit (take 4 s) then Some s else None)\<rparr>"

text \<open>Three records: two of a known severity, one of a severity outside the list.\<close>

definition example_records :: "issue list" where
  "example_records =
     [example_issue ''K1'' ''MAJOR'' ''src/b.ts'' (Some 7),
      example_issue ''K2'' ''TRIVIAL'' ''src/a.ts'' None,
      example_issue ''K3'' ''MAJOR'' ''src/a.ts'' (Some 3)]"



text \<open>
  \<open>String.prototype.localeCompare\<close> compares by collation and not by code units:
  canonically equivalent strings compare as equal. A host that does so for the letter e
  with an acute accent, written as the single code point U+00E9 (bytes C3 A9) or as the
  letter e followed by the combining accent U+0301 (bytes 65 CC 81), and that compares
  byte-wise otherwise.
\<close>

fun compose_accent :: "string \<Rightarrow> string" where
  "compose_accent (a # b # c # rest) =
     (if a = CHR 0x65 \<and> b = CHR 0xCC \<and> c = CHR 0x81
      then CHR 0xC3 # CHR 0xA9 # compose_accent rest
      else a # compose_accent (b # c # rest))"
| "compose_accent s = s"

definition canonical_compare :: "string \<Rightarrow> string \<Rightarrow> int" where
  "canonical_compare x y = lex_compare (compose_accent x) (compose_accent y)"






section \<open>Properties\<close>

subsection \<open>The fetch loop\<close>

lemma page_data_SomeD:
  "page_data f = Some d \<Longrightarrow> \<exists>res. f = Fulfilled res \<and> ok res \<and> res_json res = Inr d"
  by (auto simp: page_data_def split: fetched.splits if_splits sum.splits)

lemma page_issues_Some: "page_data (srv p) = Some d \<Longrightarrow> page_issues srv p = issues_of d"
  by (simp add: page_issues_def)

lemma fetch_loop_step:
  assumes "covers page tot" "page_data (srv page) = Some d"
  shows "fetch_loop srv page tot all reqs =
         fetch_loop srv (Suc page) (Declared (total_of d)) (all @ issues_of d) (reqs @ [page])"
proof -
  from assms(2) obtain res where "srv page = Fulfilled res" "ok res" "res_json res = Inr d"
    using page_data_SomeD by blast
  then show ?thesis
    using assms(1) by (subst fetch_loop.simps) simp
qed

lemma fetch_loop_exit:
  "\<not> covers page tot \<Longrightarrow> fetch_loop srv page tot all reqs = Some (reqs, Inr all)"
  by (subst fetch_loop.simps) simp

lemma fetch_loop_not_ok:
  assumes "covers page tot" "srv page = Fulfilled res" "\<not> ok res"
  shows "fetch_loop srv page tot all reqs =
         Some (reqs @ [page],
           Inl (Error (''SonarCloud API error '' @ String_nat (res_status res) @ '': '' @ res_text res)))"
  using assms by (subst fetch_loop.simps) simp

lemma fetch_loop_stops:
  assumes "\<forall>p. page \<le> p \<and> p < page + k \<longrightarrow> continues srv p"
    and "stops srv (page + k)" and "covers page tot"
  shows "fetch_loop srv page tot all reqs =
         Some (reqs @ [page ..< Suc (page + k)],
               Inr (all @ concat (map (page_issues srv) [page ..< Suc (page + k)])))"
  using assms
proof (induction k arbitrary: page tot all reqs)
  case 0
  then obtain d where d: "page_data (srv page) = Some d" "\<not> int (page * PAGE_SIZE) < total_of d"
    by (auto simp: stops_def split: option.splits)
  have "fetch_loop srv page tot all reqs =
        fetch_loop srv (Suc page) (Declared (total_of d)) (all @ issues_of d) (reqs @ [page])"
    using "0.prems"(3) d(1) by (rule fetch_loop_step)
  also have "\<dots> = Some (reqs @ [page], Inr (all @ issues_of d))"
    using d(2) by (intro fetch_loop_exit) simp
  finally show ?case
    using d(1) by (simp add: page_issues_Some)
next
  case (Suc k)
  from Suc.prems(1) have "continues srv page" by simp
  then obtain d where d: "page_data (srv page) = Some d" "int (page * PAGE_SIZE) < total_of d"
    by (auto simp: continues_def split: option.splits)
  have step: "fetch_loop srv page tot all reqs =
        fetch_loop srv (Suc page) (Declared (total_of d)) (all @ issues_of d) (reqs @ [page])"
    using Suc.prems(3) d(1) by (rule fetch_loop_step)
  have "\<forall>p. Suc page \<le> p \<and> p < Suc page + k \<longrightarrow> continues srv p"
    using Suc.prems(1) by simp
  moreover have "stops srv (Suc page + k)" using Suc.prems(2) by simp
  moreover have "covers (Suc page) (Declared (total_of d))" using d(2) by simp
  ultimately have "fetch_loop srv (Suc page) (Declared (total_of d)) (all @ issues_of d) (reqs @ [page]) =
     Some ((reqs @ [page]) @ [Suc page ..< Suc (Suc page + k)],
           Inr ((all @ issues_of d) @ concat (map (page_issues srv) [Suc page ..< Suc (Suc page + k)])))"
    by (rule Suc.IH)
  moreover have "[page ..< Suc (page + Suc k)] = page # [Suc page ..< Suc (Suc page + k)]"
    by (simp add: upt_conv_Cons del: upt_Suc)
  ultimately show ?case
    using step d(1) by (simp add: page_issues_Some del: upt_Suc)
qed

lemma fetch_loop_fails:
  assumes "\<forall>p. page \<le> p \<and> p < page + k \<longrightarrow> continues srv p"
    and "srv (page + k) = Fulfilled res" and "\<not> ok res" and "covers page tot"
  shows "fetch_loop srv page tot all reqs =
         Some (reqs @ [page ..< Suc (page + k)],
           Inl (Error (''SonarCloud API error '' @ String_nat (res_status res) @ '': '' @ res_text res)))"
  using assms
proof (induction k arbitrary: page tot all reqs)
  case 0
  then show ?case by (simp add: fetch_loop_not_ok)
next
  case (Suc k)
  from Suc.prems(1) have "continues srv page" by simp
  then obtain d where d: "page_data (srv page) = Some d" "int (page * PAGE_SIZE) < total_of d"
    by (auto simp: continues_def split: option.splits)
  have step: "fetch_loop srv page tot all reqs =
        fetch_loop srv (Suc page) (Declared (total_of d)) (all @ issues_of d) (reqs @ [page])"
    using Suc.prems(4) d(1) by (rule fetch_loop_step)
  have "\<forall>p. Suc page \<le> p \<and> p < Suc page + k \<longrightarrow> continues srv p"
    using Suc.prems(1) by simp
  moreover have "srv (Suc page + k) = Fulfilled res" using Suc.prems(2) by simp
  moreover have "covers (Suc page) (Declared (total_of d))" using d(2) by simp
  ultimately have "fetch_loop srv (Suc page) (Declared (total_of d)) (all @ issues_of d) (reqs @ [page]) =
     Some ((reqs @ [page]) @ [Suc page ..< Suc (Suc page + k)],
       Inl (Error (''SonarCloud API error '' @ String_nat (res_status res) @ '': '' @ res_text res)))"
    using Suc.prems(3) by (intro Suc.IH) 
  moreover have "[page ..< Suc (page + Suc k)] = page # [Suc page ..< Suc (Suc page + k)]"
    by (simp add: upt_conv_Cons del: upt_Suc)
  ultimately show ?case
    using step by (simp del: upt_Suc)
qed

lemma fetchAllIssues_stops:
  assumes "1 \<le> n" and "\<forall>p. 1 \<le> p \<and> p < n \<longrightarrow> continues srv p" and "stops srv n"
  shows "fetchAllIssues srv =
         Some ([1 ..< Suc n], Inr (concat (map (page_issues srv) [1 ..< Suc n])))"
proof -
  obtain k where k: "n = 1 + k" using assms(1) by (metis le_iff_add)
  have "fetch_loop srv 1 Infinity [] [] =
        Some ([] @ [1 ..< Suc (1 + k)], Inr ([] @ concat (map (page_issues srv) [1 ..< Suc (1 + k)])))"
    using assms(2,3) unfolding k by (intro fetch_loop_stops) auto
  then show ?thesis by (simp add: fetchAllIssues_def k del: upt_Suc)
qed

lemma fetchAllIssues_fails:
  assumes "1 \<le> n" and "\<forall>p. 1 \<le> p \<and> p < n \<longrightarrow> continues srv p"
    and "srv n = Fulfilled res" and "\<not> ok res"
  shows "fetchAllIssues srv =
         Some ([1 ..< Suc n],
           Inl (Error (''SonarCloud API error '' @ String_nat (res_status res) @ '': '' @ res_text res)))"
proof -
  obtain k where k: "n = 1 + k" using assms(1) by (metis le_iff_add)
  have "fetch_loop srv 1 Infinity [] [] =
        Some ([] @ [1 ..< Suc (1 + k)],
          Inl (Error (''SonarCloud API error '' @ String_nat (res_status res) @ '': '' @ res_text res)))"
    using assms(2,3,4) unfolding k by (intro fetch_loop_fails) auto
  then show ?thesis by (simp add: fetchAllIssues_def k del: upt_Suc)
qed

lemma page_data_ok_page [simp]: "page_data (ok_page d) = Some d"
  by (simp add: page_data_def ok_page_def ok_def)

lemma String_nat_503: "String_nat 503 = ''503''"
  by (simp add: String_nat_def digits.simps)

lemma total_of_missing:
  "total d = None \<Longrightarrow> (case paging d of None \<Rightarrow> True | Some pg \<Rightarrow> paging_total pg = None)
     \<Longrightarrow> total_of d = 0"
  by (simp add: total_of_def split: option.splits)

lemma upt_split3:
  assumes "1 \<le> n" "n \<le> m"
  shows "[1 ..< Suc m] = [1 ..< n] @ [n] @ [Suc n ..< Suc m]"
proof -
  have "[1 ..< Suc m] = [1 ..< n] @ [n ..< Suc m]"
    using assms by (metis le_Suc_eq upt_add_eq_append le_iff_add)
  moreover have "[n ..< Suc m] = n # [Suc n ..< Suc m]"
    using assms by (simp add: upt_conv_Cons del: upt_Suc)
  ultimately show ?thesis by simp
qed

subsection \<open>Pagination\<close>

text \<open>
  Claim C2. The fetcher requests page 1 and goes on to the next page as long as the
  total declared by the page just read is beyond \<open>(page - 1) * PAGE_SIZE\<close>. When pages
  1 to \<open>n - 1\<close> make it go on and page \<open>n\<close> makes it stop, it has requested exactly the
  pages 1 to \<open>n\<close>, in this order, and returns their records, in this order. When the
  first three pages declare a total of 1200 and hold 500, 500 and 200 records, it requests
  exactly the pages 1, 2 and 3 and returns the 1200 records in request order.
\<close>

theorem fetchAllIssues_pagination:
  "(1 \<le> n \<and> (\<forall>p. 1 \<le> p \<and> p < n \<longrightarrow> continues srv p) \<and> stops srv n \<longrightarrow>
      fetchAllIssues srv =
        Some ([1 ..< Suc n], Inr (concat (map (page_issues srv) [1 ..< Suc n]))))
   \<and> ((\<forall>p \<in> {1, 2, 3}. \<exists>d. page_data (srv p) = Some d \<and> total_of d = 1200
            \<and> length (issues_of d) = (if p = 3 then 200 else 500)) \<longrightarrow>
      fetchAllIssues srv =
        Some ([1, 2, 3], Inr (page_issues srv 1 @ page_issues srv 2 @ page_issues srv 3))
      \<and> length (page_issues srv 1 @ page_issues srv 2 @ page_issues srv 3) = 1200)"
proof (intro conjI impI)
  assume "1 \<le> n \<and> (\<forall>p. 1 \<le> p \<and> p < n \<longrightarrow> continues srv p) \<and> stops srv n"
  then show "fetchAllIssues srv =
        Some ([1 ..< Suc n], Inr (concat (map (page_issues srv) [1 ..< Suc n])))"
    using fetchAllIssues_stops [of n srv] by blast
next
  assume a: "\<forall>p \<in> {1, 2, 3}. \<exists>d. page_data (srv p) = Some d \<and> total_of d = 1200
            \<and> length (issues_of d) = (if p = 3 then 200 else 500)"
  then obtain d1 d2 d3 where
    d1: "page_data (srv 1) = Some d1" "total_of d1 = 1200" "length (issues_of d1) = 500" and
    d2: "page_data (srv 2) = Some d2" "total_of d2 = 1200" "length (issues_of d2) = 500" and
    d3: "page_data (srv 3) = Some d3" "total_of d3 = 1200" "length (issues_of d3) = 200"
    by auto
  have c: "\<forall>p. 1 \<le> p \<and> p < 3 \<longrightarrow> continues srv p"
  proof (intro allI impI)
    fix p :: nat assume "1 \<le> p \<and> p < 3"
    then have "p = 1 \<or> p = 2" by arith
    then show "continues srv p"
      using d1 d2 by (auto simp: continues_def PAGE_SIZE_def)
  qed
  have s: "stops srv 3" using d3 by (simp add: stops_def PAGE_SIZE_def)
  have u: "[1 ..< Suc 3] = [1, 2, 3]" by (simp add: upt_conv_Cons del: upt_Suc)
  have "fetchAllIssues srv = Some ([1 ..< Suc 3], Inr (concat (map (page_issues srv) [1 ..< Suc 3])))"
    using c s by (intro fetchAllIssues_stops) auto
  then show "fetchAllIssues srv =
        Some ([1, 2, 3], Inr (page_issues srv 1 @ page_issues srv 2 @ page_issues srv 3))"
    unfolding u by simp
  show "length (page_issues srv 1 @ page_issues srv 2 @ page_issues srv 3) = 1200"
    using d1 d2 d3 by (simp add: page_issues_Some)
qed

theorem fetchAllIssues_pagination_witness:
  "fetchAllIssues srv_1200 =
     Some ([1, 2, 3],
       Inr (replicate 500 (example_issue ''AX1'' ''MAJOR'' ''src/index.ts'' (Some 1))
          @ replicate 500 (example_issue ''AX1'' ''MAJOR'' ''src/index.ts'' (Some 2))
          @ replicate 200 (example_issue ''AX1'' ''MAJOR'' ''src/index.ts'' (Some 3))))
   \<and> length (page_issues srv_1200 1 @ page_issues srv_1200 2 @ page_issues srv_1200 3) = 1200"
proof -
  have "\<forall>p \<in> {1, 2, 3}. \<exists>d. page_data (srv_1200 p) = Some d \<and> total_of d = 1200
            \<and> length (issues_of d) = (if p = 3 then 200 else 500)"
    by (simp add: srv_1200_def total_of_def issues_of_def)
  then show ?thesis
    using fetchAllIssues_pagination [of 3 srv_1200]
    by (simp add: page_issues_def srv_1200_def issues_of_def)
qed

text \<open>
  Claim C5. When the request for a page that the loop reaches is answered with a status
  outside 200 to 299, \<open>fetchAllIssues\<close> throws an error whose message holds the status
  code and the body of the response, no record is returned, no later page is requested,
  and \<open>main\<close> writes no file and exits with status 1.
\<close>

theorem fetch_failure_aborts:
  assumes "1 \<le> n" and "\<forall>p. 1 \<le> p \<and> p < n \<longrightarrow> continues srv p"
    and "srv n = Fulfilled res" and "\<not> ok res"
  shows "fetchAllIssues srv =
           Some ([1 ..< Suc n],
             Inl (Error (''SonarCloud API error '' @ String_nat (res_status res) @ '': '' @ res_text res)))
         \<and> main h srv =
           Some \<lparr>requested = [1 ..< Suc n], written = [],
                 reported = Some (''SonarCloud API error '' @ String_nat (res_status res) @ '': '' @ res_text res),
                 exit_status = 1\<rparr>"
proof -
  have f: "fetchAllIssues srv =
           Some ([1 ..< Suc n],
             Inl (Error (''SonarCloud API error '' @ String_nat (res_status res) @ '': '' @ res_text res)))"
    using assms by (rule fetchAllIssues_fails)
  then show ?thesis by (simp add: main_def del: upt_Suc)
qed

theorem fetch_failure_aborts_witness:
  "\<not> ok (Response 503 ''Service Unavailable'' (Inl ''Unexpected token S''))
   \<and> continues srv_second_fails 1
   \<and> fetchAllIssues srv_second_fails =
       Some ([1, 2], Inl (Error ''SonarCloud API error 503: Service Unavailable''))
   \<and> main example_host srv_second_fails =
       Some \<lparr>requested = [1, 2], written = [],
             reported = Some ''SonarCloud API error 503: Service Unavailable'', exit_status = 1\<rparr>"
proof -
  have c: "continues srv_second_fails 1"
    by (simp add: continues_def srv_second_fails_def srv_1200_def total_of_def PAGE_SIZE_def)
  have n: "\<not> ok (Response 503 ''Service Unavailable'' (Inl ''Unexpected token S''))"
    by (simp add: ok_def)
  have "\<forall>p. 1 \<le> p \<and> p < 2 \<longrightarrow> continues srv_second_fails p"
  proof (intro allI impI)
    fix p :: nat assume "1 \<le> p \<and> p < 2"
    then have "p = 1" by arith
    then show "continues srv_second_fails p" using c by simp
  qed
  moreover have "srv_second_fails 2 = Fulfilled (Response 503 ''Service Unavailable'' (Inl ''Unexpected token S''))"
    by (simp add: srv_second_fails_def)
  moreover have "[1 ..< Suc 2] = [1, 2::nat]" by (simp add: upt_conv_Cons del: upt_Suc)
  ultimately show ?thesis
    using fetch_failure_aborts [of 2 srv_second_fails
        "Response 503 ''Service Unavailable'' (Inl ''Unexpected token S'')" example_host] c n
    by (simp add: String_nat_503)
qed

text \<open>
  Claim C8. A body with no \<open>total\<close>, at the top or under \<open>paging\<close>, counts as a total of
  0: the loop stops after this page and returns the records gathered, those of this page
  included. A body with no \<open>issues\<close> counts as an empty page: the run goes on or stops
  by its total, and the records returned are those of the other pages. Neither raises an
  error.
\<close>

theorem missing_fields_default:
  "(total d = None \<and> (case paging d of None \<Rightarrow> True | Some pg \<Rightarrow> paging_total pg = None)
      \<longrightarrow> total_of d = 0)
   \<and> (issues d = None \<longrightarrow> issues_of d = [])
   \<and> (1 \<le> n \<and> (\<forall>p. 1 \<le> p \<and> p < n \<longrightarrow> continues srv p) \<and> page_data (srv n) = Some d
        \<and> total d = None \<and> (case paging d of None \<Rightarrow> True | Some pg \<Rightarrow> paging_total pg = None)
      \<longrightarrow> fetchAllIssues srv =
            Some ([1 ..< Suc n], Inr (concat (map (page_issues srv) [1 ..< n]) @ issues_of d)))
   \<and> (1 \<le> n \<and> n \<le> m \<and> (\<forall>p. 1 \<le> p \<and> p < m \<longrightarrow> continues srv p) \<and> stops srv m
        \<and> page_data (srv n) = Some d \<and> issues d = None
      \<longrightarrow> fetchAllIssues srv =
            Some ([1 ..< Suc m],
              Inr (concat (map (page_issues srv) [1 ..< n])
                   @ concat (map (page_issues srv) [Suc n ..< Suc m]))))"
proof (intro conjI impI)
  assume "total d = None \<and> (case paging d of None \<Rightarrow> True | Some pg \<Rightarrow> paging_total pg = None)"
  then show "total_of d = 0" by (simp add: total_of_missing)
next
  assume "issues d = None"
  then show "issues_of d = []" by (simp add: issues_of_def)
next
  assume a: "1 \<le> n \<and> (\<forall>p. 1 \<le> p \<and> p < n \<longrightarrow> continues srv p) \<and> page_data (srv n) = Some d
        \<and> total d = None \<and> (case paging d of None \<Rightarrow> True | Some pg \<Rightarrow> paging_total pg = None)"
  then have "total_of d = 0" by (simp add: total_of_missing)
  then have "stops srv n" using a by (simp add: stops_def PAGE_SIZE_def)
  then have "fetchAllIssues srv =
         Some ([1 ..< Suc n], Inr (concat (map (page_issues srv) [1 ..< Suc n])))"
    using a fetchAllIssues_stops [of n srv] by blast
  moreover have "[1 ..< Suc n] = [1 ..< n] @ [n]" using a by simp
  ultimately show "fetchAllIssues srv =
            Some ([1 ..< Suc n], Inr (concat (map (page_issues srv) [1 ..< n]) @ issues_of d))"
    using a by (simp add: page_issues_Some)
next
  assume a: "1 \<le> n \<and> n \<le> m \<and> (\<forall>p. 1 \<le> p \<and> p < m \<longrightarrow> continues srv p) \<and> stops srv m
        \<and> page_data (srv n) = Some d \<and> issues d = None"
  then have "1 \<le> m" by simp
  then have f: "fetchAllIssues srv =
         Some ([1 ..< Suc m], Inr (concat (map (page_issues srv) [1 ..< Suc m])))"
    using a fetchAllIssues_stops [of m srv] by blast
  have "page_issues srv n = []" using a by (simp add: page_issues_Some issues_of_def)
  moreover have "[1 ..< Suc m] = [1 ..< n] @ [n] @ [Suc n ..< Suc m]"
    using a by (intro upt_split3) auto
  ultimately have "concat (map (page_issues srv) [1 ..< Suc m]) =
      concat (map (page_issues srv) [1 ..< n]) @ concat (map (page_issues srv) [Suc n ..< Suc m])"
    by (simp del: upt_Suc)
  then show "fetchAllIssues srv =
            Some ([1 ..< Suc m],
              Inr (concat (map (page_issues srv) [1 ..< n])
                   @ concat (map (page_issues srv) [Suc n ..< Suc m])))"
    using f by simp
qed

theorem missing_fields_default_witness:
  "page_data (srv_malformed 1) = Some \<lparr>total = Some 600, paging = None, issues = None\<rparr>
   \<and> page_data (srv_malformed 2) =
       Some \<lparr>total = None, paging = Some \<lparr>paging_total = None\<rparr>,
             issues = Some [example_issue ''AX2'' ''INFO'' ''src/a.ts'' None]\<rparr>
   \<and> continues srv_malformed 1 \<and> stops srv_malformed 2
   \<and> fetchAllIssues srv_malformed =
       Some ([1, 2], Inr [example_issue ''AX2'' ''INFO'' ''src/a.ts'' None])"
proof -
  let ?d1 = "\<lparr>total = Some 600, paging = None, issues = None\<rparr>"
  let ?d2 = "\<lparr>total = None, paging = Some \<lparr>paging_total = None\<rparr>,
             issues = Some [example_issue ''AX2'' ''INFO'' ''src/a.ts'' None]\<rparr>"
  have p1: "page_data (srv_malformed 1) = Some ?d1" by (simp add: srv_malformed_def)
  have p2: "page_data (srv_malformed 2) = Some ?d2" by (simp add: srv_malformed_def)
  have c: "continues srv_malformed 1"
    unfolding continues_def p1 by (simp add: total_of_def PAGE_SIZE_def)
  have s: "stops srv_malformed 2"
    unfolding stops_def p2 by (simp add: total_of_def PAGE_SIZE_def)
  have all: "\<forall>p. 1 \<le> p \<and> p < 2 \<longrightarrow> continues srv_malformed p"
  proof (intro allI impI)
    fix p :: nat assume "1 \<le> p \<and> p < 2"
    then have "p = 1" by arith
    then show "continues srv_malformed p" using c by simp
  qed
  have u: "[1 ..< Suc 2] = [1, 2::nat]" "[1 ..< 2] = [1::nat]" "[Suc 1 ..< Suc 2] = [2::nat]" "[1 ..< 1] = ([]::nat list)"
    by (simp_all add: upt_conv_Cons del: upt_Suc)
  have a: "fetchAllIssues srv_malformed =
            Some ([1 ..< Suc 2], Inr (concat (map (page_issues srv_malformed) [1 ..< 2]) @ issues_of ?d2))"
    using missing_fields_default [of ?d2 2 srv_malformed 2] all p2 by simp
  have b: "fetchAllIssues srv_malformed =
            Some ([1 ..< Suc 2],
              Inr (concat (map (page_issues srv_malformed) [1 ..< 1])
                   @ concat (map (page_issues srv_malformed) [Suc 1 ..< Suc 2])))"
    using missing_fields_default [of ?d1 1 srv_malformed 2] all p1 s by simp
  show ?thesis
    using a b p1 p2 c s unfolding u by (simp add: page_issues_Some issues_of_def)
qed

subsection \<open>Grouping\<close>

lemma map_fst_push [simp]: "map fst (push m k it) = map fst m"
  by (induction m) (auto simp: push_def)

lemma map_fst_group_step:
  "map fst (group_step m it) =
     (if severity it \<in> set (map fst m) then map fst m else map fst m @ [severity it])"
  by (simp add: group_step_def has_def)

lemma set_push:
  "set (push m k it) = (\<lambda>(s, b). if s = k then (s, b @ [it]) else (s, b)) ` set m"
  by (simp add: push_def)

lemma push_filter:
  assumes "\<forall>(s, b) \<in> set m. b = filter (\<lambda>x. severity x = s) xs"
  shows "\<forall>(s, b) \<in> set (push m (severity it) it). b = filter (\<lambda>x. severity x = s) (xs @ [it])"
  using assms by (fastforce simp: set_push split: if_splits)

lemma group_step_filter:
  assumes "\<forall>(s, b) \<in> set m. b = filter (\<lambda>x. severity x = s) xs"
    and "severity ` set xs \<subseteq> set (map fst m)"
  shows "\<forall>(s, b) \<in> set (group_step m it). b = filter (\<lambda>x. severity x = s) (xs @ [it])"
proof (cases "has m (severity it)")
  case True
  then show ?thesis using push_filter [OF assms(1), of it] by (simp add: group_step_def)
next
  case False
  then have "severity it \<notin> severity ` set xs" using assms(2) by (auto simp: has_def)
  then have "filter (\<lambda>x. severity x = severity it) xs = []"
    unfolding filter_empty_conv by (metis imageI)
  then have "[] = filter (\<lambda>x. severity x = severity it) xs"
    by simp
  then have "\<forall>(s, b) \<in> set (m @ [(severity it, [])]). b = filter (\<lambda>x. severity x = s) xs"
    using assms(1) by auto
  then have "\<forall>(s, b) \<in> set (push (m @ [(severity it, [])]) (severity it) it).
               b = filter (\<lambda>x. severity x = s) (xs @ [it])"
    by (rule push_filter)
  then show ?thesis using False by (simp add: group_step_def)
qed

lemma sum_push:
  "distinct (map fst m) \<Longrightarrow> k \<in> set (map fst m) \<Longrightarrow>
   sum_list (map (\<lambda>(s, b). length b) (push m k it)) = Suc (sum_list (map (\<lambda>(s, b). length b) m))"
proof (induction m)
  case Nil
  then show ?case by simp
next
  case (Cons x m)
  obtain s b where x: "x = (s, b)" by (cases x)
  show ?case
  proof (cases "s = k")
    case True
    then have "k \<notin> set (map fst m)" using Cons.prems(1) x by simp
    then have "push m k it = m"
      by (induction m) (auto simp: push_def)
    then show ?thesis using True x by (simp add: push_def)
  next
    case False
    then have "k \<in> set (map fst m)" using Cons.prems(2) x by simp
    moreover have "distinct (map fst m)" using Cons.prems(1) by simp
    ultimately have "sum_list (map (\<lambda>(s, b). length b) (push m k it)) =
                     Suc (sum_list (map (\<lambda>(s, b). length b) m))"
      by (rule Cons.IH[rotated])
    then show ?thesis using False x by (simp add: push_def)
  qed
qed

lemma sum_group_step:
  assumes "distinct (map fst m)"
  shows "sum_list (map (\<lambda>(s, b). length b) (group_step m it)) =
         Suc (sum_list (map (\<lambda>(s, b). length b) m))"
proof (cases "has m (severity it)")
  case True
  then show ?thesis using assms by (simp add: group_step_def sum_push has_def)
next
  case False
  then have "distinct (map fst (m @ [(severity it, [])]))" using assms by (simp add: has_def)
  moreover have "severity it \<in> set (map fst (m @ [(severity it, [])]))" by simp
  ultimately have "sum_list (map (\<lambda>(s, b). length b) (push (m @ [(severity it, [])]) (severity it) it)) =
     Suc (sum_list (map (\<lambda>(s, b). length b) (m @ [(severity it, [])])))"
    by (rule sum_push)
  then show ?thesis using False by (simp add: group_step_def)
qed

lemma distinct_group_step: "distinct (map fst m) \<Longrightarrow> distinct (map fst (group_step m it))"
  by (simp add: map_fst_group_step)

lemma foldl_group_step:
  assumes "distinct (map fst m)"
    and "\<forall>(s, b) \<in> set m. b = filter (\<lambda>x. severity x = s) xs"
    and "severity ` set xs \<subseteq> set (map fst m)"
  shows "distinct (map fst (foldl group_step m its))
       \<and> prefix (map fst m) (map fst (foldl group_step m its))
       \<and> set (map fst (foldl group_step m its)) = set (map fst m) \<union> severity ` set its
       \<and> (\<forall>(s, b) \<in> set (foldl group_step m its). b = filter (\<lambda>x. severity x = s) (xs @ its))
       \<and> sum_list (map (\<lambda>(s, b). length b) (foldl group_step m its)) =
           sum_list (map (\<lambda>(s, b). length b) m) + length its"
  using assms
proof (induction its arbitrary: m xs)
  case Nil
  then show ?case by simp
next
  case (Cons it its)
  let ?m = "group_step m it"
  have d: "distinct (map fst ?m)" using Cons.prems(1) by (rule distinct_group_step)
  have f: "\<forall>(s, b) \<in> set ?m. b = filter (\<lambda>x. severity x = s) (xs @ [it])"
    using Cons.prems(2,3) by (rule group_step_filter)
  have k: "set (map fst ?m) = set (map fst m) \<union> {severity it}"
    by (auto simp: map_fst_group_step)
  have c: "severity ` set (xs @ [it]) \<subseteq> set (map fst ?m)"
    using Cons.prems(3) k by auto
  have p: "prefix (map fst m) (map fst ?m)" by (simp add: map_fst_group_step)
  have s: "sum_list (map (\<lambda>(s, b). length b) ?m) = Suc (sum_list (map (\<lambda>(s, b). length b) m))"
    using Cons.prems(1) by (rule sum_group_step)
  note ih = Cons.IH [OF d f c]
  have "prefix (map fst m) (map fst (foldl group_step ?m its))"
    using p ih prefix_order.trans by blast
  moreover have "set (map fst (foldl group_step ?m its)) = set (map fst m) \<union> severity ` set (it # its)"
    using ih k by auto
  ultimately show ?case using ih s by simp
qed

lemma group_issues_props:
  "distinct (map fst (group_issues its))
   \<and> prefix SEVERITIES (map fst (group_issues its))
   \<and> set (map fst (group_issues its)) = set SEVERITIES \<union> severity ` set its
   \<and> (\<forall>(s, b) \<in> set (group_issues its). b = filter (\<lambda>x. severity x = s) its)
   \<and> sum_list (map (\<lambda>(s, b). length b) (group_issues its)) = length its"
proof -
  let ?m0 = "map (\<lambda>s. (s, [])) SEVERITIES :: buckets"
  have k0: "map fst ?m0 = SEVERITIES" by (simp add: comp_def)
  have "distinct (map fst ?m0)" unfolding k0 by (simp add: SEVERITIES_def)
  moreover have "\<forall>(s, b) \<in> set ?m0. b = filter (\<lambda>x. severity x = s) []" by auto
  moreover have "severity ` set [] \<subseteq> set (map fst ?m0)" by simp
  ultimately have r: "distinct (map fst (foldl group_step ?m0 its))
       \<and> prefix (map fst ?m0) (map fst (foldl group_step ?m0 its))
       \<and> set (map fst (foldl group_step ?m0 its)) = set (map fst ?m0) \<union> severity ` set its
       \<and> (\<forall>(s, b) \<in> set (foldl group_step ?m0 its). b = filter (\<lambda>x. severity x = s) ([] @ its))
       \<and> sum_list (map (\<lambda>(s, b). length b) (foldl group_step ?m0 its)) =
           sum_list (map (\<lambda>(s, b). length b) ?m0) + length its"
    by (rule foldl_group_step)
  have z: "sum_list (map (\<lambda>(s, b). length b) ?m0) = 0" by (simp add: comp_def)
  show ?thesis
    using r unfolding group_issues_def k0 z by simp
qed

lemma group_issues_distinct: "distinct (map fst (group_issues its))"
  using group_issues_props [of its] by (rule conjunct1)

lemma group_issues_prefix: "prefix SEVERITIES (map fst (group_issues its))"
  using group_issues_props [of its] by simp

lemma group_issues_keys:
  "set (map fst (group_issues its)) = set SEVERITIES \<union> severity ` set its"
  using group_issues_props [of its] by simp

lemma group_issues_filter:
  "(s, b) \<in> set (group_issues its) \<Longrightarrow> b = filter (\<lambda>x. severity x = s) its"
proof -
  assume a: "(s, b) \<in> set (group_issues its)"
  have "\<forall>(s, b) \<in> set (group_issues its). b = filter (\<lambda>x. severity x = s) its"
    using group_issues_props [of its] by simp
  then show ?thesis using a by fast
qed

lemma group_issues_sum:
  "sum_list (map (\<lambda>(s, b). length b) (group_issues its)) = length its"
  using group_issues_props [of its] by simp

lemma group_issues_unique:
  assumes "it \<in> set its"
  shows "\<exists>!sb. sb \<in> set (group_issues its) \<and> it \<in> set (snd sb)"
proof -
  have "severity it \<in> set (map fst (group_issues its))"
    using assms group_issues_keys [of its] by blast
  then obtain b where b: "(severity it, b) \<in> set (group_issues its)" by auto
  have bf: "b = filter (\<lambda>x. severity x = severity it) its"
    using b by (rule group_issues_filter)
  have mem: "it \<in> set b" using bf assms by simp
  have uniq: "sb = (severity it, b)"
    if "sb \<in> set (group_issues its) \<and> it \<in> set (snd sb)" for sb
  proof -
    obtain s c where sb: "sb = (s, c)" by (cases sb)
    have c: "c = filter (\<lambda>x. severity x = s) its"
      using that sb by (simp add: group_issues_filter)
    have "it \<in> set c" using that sb by simp
    then have "s = severity it" using c by simp
    then show ?thesis using sb c bf by simp
  qed
  show ?thesis
  proof (rule ex1I [of _ "(severity it, b)"])
    show "(severity it, b) \<in> set (group_issues its) \<and> it \<in> set (snd (severity it, b))"
      using b mem by simp
  next
    fix sb assume "sb \<in> set (group_issues its) \<and> it \<in> set (snd sb)"
    then show "sb = (severity it, b)" by (rule uniq)
  qed
qed

lemma group_example:
  "group_issues example_records =
     [(''BLOCKER'', []), (''CRITICAL'', []),
      (''MAJOR'', [example_issue ''K1'' ''MAJOR'' ''src/b.ts'' (Some 7),
                   example_issue ''K3'' ''MAJOR'' ''src/a.ts'' (Some 3)]),
      (''MINOR'', []), (''INFO'', []),
      (''TRIVIAL'', [example_issue ''K2'' ''TRIVIAL'' ''src/a.ts'' None])]"
  by (simp add: group_issues_def example_records_def SEVERITIES_def group_step_def has_def push_def
        example_issue_def)

text \<open>
  Claim C6. Grouping gives one bucket per label, the five known severities first and in
  their order (each present even with no record), then one bucket for every other
  severity met. The bucket of a label holds exactly the records of that severity, in the
  order fetched, so every record is in exactly one bucket and the bucket sizes add up to
  the number of records.
\<close>

theorem grouping_partition:
  "distinct (map fst (group_issues its))
   \<and> prefix SEVERITIES (map fst (group_issues its))
   \<and> set (map fst (group_issues its)) = set SEVERITIES \<union> severity ` set its
   \<and> (\<forall>(s, b) \<in> set (group_issues its). b = filter (\<lambda>x. severity x = s) its)
   \<and> (\<forall>it \<in> set its. \<exists>!sb. sb \<in> set (group_issues its) \<and> it \<in> set (snd sb))
   \<and> sum_list (map (\<lambda>(s, b). length b) (group_issues its)) = length its"
proof (intro conjI)
  show "distinct (map fst (group_issues its))" by (rule group_issues_distinct)
  show "prefix SEVERITIES (map fst (group_issues its))" by (rule group_issues_prefix)
  show "set (map fst (group_issues its)) = set SEVERITIES \<union> severity ` set its"
    by (rule group_issues_keys)
  show "\<forall>(s, b) \<in> set (group_issues its). b = filter (\<lambda>x. severity x = s) its"
    using group_issues_props [of its] by simp
  show "\<forall>it \<in> set its. \<exists>!sb. sb \<in> set (group_issues its) \<and> it \<in> set (snd sb)"
    using group_issues_unique by blast
  show "sum_list (map (\<lambda>(s, b). length b) (group_issues its)) = length its"
    by (rule group_issues_sum)
qed

theorem grouping_partition_witness:
  "(''TRIVIAL'', [example_issue ''K2'' ''TRIVIAL'' ''src/a.ts'' None]) \<in> set (group_issues example_records)
   \<and> [example_issue ''K2'' ''TRIVIAL'' ''src/a.ts'' None] =
       filter (\<lambda>x. severity x = ''TRIVIAL'') example_records
   \<and> example_issue ''K2'' ''TRIVIAL'' ''src/a.ts'' None \<in> set example_records
   \<and> (\<exists>!sb. sb \<in> set (group_issues example_records)
          \<and> example_issue ''K2'' ''TRIVIAL'' ''src/a.ts'' None \<in> set (snd sb))
   \<and> sum_list (map (\<lambda>(s, b). length b) (group_issues example_records)) = 3"
proof -
  let ?t = "example_issue ''K2'' ''TRIVIAL'' ''src/a.ts'' None"
  have m: "(''TRIVIAL'', [?t]) \<in> set (group_issues example_records)"
    by (simp add: group_example)
  have i: "?t \<in> set example_records"
    by (simp add: example_records_def)
  have l: "length example_records = 3" by (simp add: example_records_def)
  note g = grouping_partition [of example_records]
  have f: "\<forall>(s, b) \<in> set (group_issues example_records). b = filter (\<lambda>x. severity x = s) example_records"
    using g by (elim conjE)
  have u: "\<forall>it \<in> set example_records. \<exists>!sb. sb \<in> set (group_issues example_records) \<and> it \<in> set (snd sb)"
    using g by (elim conjE)
  have s: "sum_list (map (\<lambda>(s, b). length b) (group_issues example_records)) = length example_records"
    using g by (elim conjE)
  have "[?t] = filter (\<lambda>x. severity x = ''TRIVIAL'') example_records"
    using f m by fast
  moreover have "\<exists>!sb. sb \<in> set (group_issues example_records) \<and> ?t \<in> set (snd sb)"
    using u i by (rule bspec)
  ultimately show ?thesis using m i s l by simp
qed

subsection \<open>Sorting\<close>








lemma mset_insert_by: "mset (insert_by c x xs) = add_mset x (mset xs)"
  by (induction xs) auto

lemma mset_array_sort: "mset (array_sort c xs) = mset xs"
  by (induction xs) (auto simp: mset_insert_by)


lemma set_array_sort: "set (array_sort c xs) = set xs"
  using mset_array_sort [of c xs] by (metis set_mset_mset)

lemma length_array_sort: "length (array_sort c xs) = length xs"
  using mset_array_sort [of c xs] by (metis size_mset)










lemma lex_compare_range: "lex_compare x y = - 1 \<or> lex_compare x y = 0 \<or> lex_compare x y = 1"
  by (induction x y rule: lex_compare.induct) auto


lemma lex_compare_anti: "lex_compare x y < 0 \<longleftrightarrow> 0 < lex_compare y x"
proof (induction x y rule: lex_compare.induct)
  case (4 x xs y ys)
  have "x \<noteq> y \<Longrightarrow> (of_char x :: nat) \<noteq> of_char y" by simp
  then show ?case using 4 by auto
qed auto

lemma lex_compare_trans:
  "lex_compare x y < 0 \<Longrightarrow> lex_compare y z < 0 \<Longrightarrow> lex_compare x z < 0"
proof (induction x y arbitrary: z rule: lex_compare.induct)
  case 1
  then show ?case by simp
next
  case (2 y ys)
  then show ?case by (cases z) (auto split: if_splits)
next
  case (3 x xs)
  then show ?case by simp
next
  case (4 x xs y ys)
  from "4.prems"(2) obtain c cs where z: "z = c # cs" by (cases z) auto
  show ?case
  proof (cases "x = y")
    case True
    show ?thesis
    proof (cases "y = c")
      case True
      then show ?thesis using 4 z \<open>x = y\<close> by simp
    next
      case False
      then show ?thesis using "4.prems" z \<open>x = y\<close> by (simp split: if_splits)
    qed
  next
    case False
    then have xy: "(of_char x :: nat) < of_char y" using "4.prems"(1) by (simp split: if_splits)
    show ?thesis
    proof (cases "y = c")
      case True
      then show ?thesis using xy False z by simp
    next
      case False
      then have "(of_char y :: nat) < of_char c" using "4.prems"(2) z by (simp split: if_splits)
      then have "(of_char x :: nat) < of_char c" using xy by simp
      then show ?thesis using z by auto
    qed
  qed
qed






lemma localeCompare_example [simp]: "localeCompare example_host = lex_compare"
  by (simp add: example_host_def)

lemma sort_example:
  "array_sort (compareIssues example_host) example_records =
     [example_issue ''K2'' ''TRIVIAL'' ''src/a.ts'' None,
      example_issue ''K3'' ''MAJOR'' ''src/a.ts'' (Some 3),
      example_issue ''K1'' ''MAJOR'' ''src/b.ts'' (Some 7)]"
  by (simp add: example_records_def compareIssues_def extractFilePath_def line_or_0_def
        example_issue_def)




lemma canonical_compare_anti: "canonical_compare x y < 0 \<longleftrightarrow> 0 < canonical_compare y x"
  unfolding canonical_compare_def by (rule lex_compare_anti)

lemma canonical_compare_trans:
  "canonical_compare x y < 0 \<Longrightarrow> canonical_compare y z < 0 \<Longrightarrow> canonical_compare x z < 0"
  unfolding canonical_compare_def by (rule lex_compare_trans)








subsection \<open>Chunks\<close>






lemma length_chunks [simp]: "length (chunks b) = numFiles_of (length b)"
  by (simp add: chunks_def)

























subsection \<open>The files written\<close>

lemma map_fst_sort_buckets [simp]: "map fst (sort_buckets h m) = map fst m"
  by (induction m) (auto simp: sort_buckets_def)

lemma map_of_sort_buckets:
  "map_of (sort_buckets h m) s = map_option (array_sort (compareIssues h)) (map_of m s)"
  by (induction m) (auto simp: sort_buckets_def)

lemma get_bucket_sort_buckets:
  "get_bucket (sort_buckets h m) s = array_sort (compareIssues h) (get_bucket m s)"
  by (simp add: get_bucket_def map_of_sort_buckets split: option.splits)

lemma get_bucket_group_issues:
  "get_bucket (group_issues its) s = filter (\<lambda>x. severity x = s) its"
proof (cases "map_of (group_issues its) s")
  case None
  then have "s \<notin> set (map fst (group_issues its))"
    by (simp add: map_of_eq_None_iff)
  then have "s \<notin> severity ` set its" using group_issues_keys [of its] by blast
  then have "filter (\<lambda>x. severity x = s) its = []"
    unfolding filter_empty_conv by (metis imageI)
  then show ?thesis using None by (simp add: get_bucket_def)
next
  case (Some b)
  then have "(s, b) \<in> set (group_issues its)" by (rule map_of_SomeD)
  then have "b = filter (\<lambda>x. severity x = s) its" by (rule group_issues_filter)
  then show ?thesis using Some by (simp add: get_bucket_def)
qed

lemma sorted_bucket:
  "get_bucket (sort_buckets h (group_issues its)) s =
     array_sort (compareIssues h) (filter (\<lambda>x. severity x = s) its)"
  by (simp add: get_bucket_sort_buckets get_bucket_group_issues)

lemma array_sort_Nil_iff [simp]: "array_sort c xs = [] \<longleftrightarrow> xs = []"
  using length_array_sort [of c xs] by (metis length_0_conv)

lemma renderTable_Nil [simp]: "renderTable h [] = Inr placeholder"
  by (simp add: renderTable_def)

lemma write_severity_Nil:
  "write_severity h sev [] = ([(sev @ ''.md'', headerFor h sev @ [LF] @ placeholder)], None)"
  by (simp add: write_severity_def)

lemma write_chunks_files:
  assumes "(name, content) \<in> set (fst (write_chunks h sev b n idx))"
  shows "\<exists>i \<in> set idx. \<exists>table. renderTable h (chunk_of b i) = Inr table
           \<and> name = sev @ String_nat (i + 1) @ ''.md''
           \<and> content = part_header h sev (i + 1) n @ [LF] @ table"
  using assms
proof (induction idx)
  case Nil
  then show ?case by simp
next
  case (Cons i idx)
  show ?case
  proof (cases "renderTable h (chunk_of b i)")
    case (Inl e)
    then show ?thesis using Cons.prems by (simp add: Let_def)
  next
    case (Inr table)
    obtain fs r where w: "write_chunks h sev b n idx = (fs, r)" by (cases "write_chunks h sev b n idx")
    then have "(name, content) = (sev @ String_nat (i + 1) @ ''.md'', part_header h sev (i + 1) n @ [LF] @ table)
               \<or> (name, content) \<in> set (fst (write_chunks h sev b n idx))"
      using Cons.prems Inr by (simp add: Let_def)
    then show ?thesis
    proof
      assume "(name, content) = (sev @ String_nat (i + 1) @ ''.md'', part_header h sev (i + 1) n @ [LF] @ table)"
      then show ?thesis using Inr by auto
    next
      assume "(name, content) \<in> set (fst (write_chunks h sev b n idx))"
      then show ?thesis using Cons.IH by auto
    qed
  qed
qed

lemma write_severity_files:
  assumes "(name, content) \<in> set (fst (write_severity h sev b))"
  shows "(b = [] \<and> name = sev @ ''.md'' \<and> content = headerFor h sev @ [LF] @ placeholder)
       \<or> (b \<noteq> [] \<and> (\<exists>i < numFiles_of (length b). \<exists>table. renderTable h (chunk_of b i) = Inr table
             \<and> name = sev @ String_nat (i + 1) @ ''.md''
             \<and> content = part_header h sev (i + 1) (numFiles_of (length b)) @ [LF] @ table))"
proof (cases "b = []")
  case True
  then show ?thesis using assms by (simp add: write_severity_Nil)
next
  case False
  then have "(name, content) \<in> set (fst (write_chunks h sev b (numFiles_of (length b)) [0 ..< numFiles_of (length b)]))"
    using assms by (simp add: write_severity_def Let_def)
  then have "\<exists>i \<in> set [0 ..< numFiles_of (length b)]. \<exists>table. renderTable h (chunk_of b i) = Inr table
           \<and> name = sev @ String_nat (i + 1) @ ''.md''
           \<and> content = part_header h sev (i + 1) (numFiles_of (length b)) @ [LF] @ table"
    by (rule write_chunks_files)
  then show ?thesis using False by auto
qed

lemma write_all_files:
  assumes "f \<in> set (fst (write_all h m sevs))"
  shows "\<exists>sev \<in> set sevs. f \<in> set (fst (write_severity h sev (get_bucket m sev)))"
  using assms
proof (induction sevs)
  case Nil
  then show ?case by simp
next
  case (Cons sev sevs)
  obtain fs r where w: "write_severity h sev (get_bucket m sev) = (fs, r)"
    by (cases "write_severity h sev (get_bucket m sev)")
  obtain gs q where a: "write_all h m sevs = (gs, q)" by (cases "write_all h m sevs")
  have "f \<in> set fs \<or> f \<in> set gs"
    using Cons.prems w a by (cases r) auto
  then show ?case
  proof
    assume "f \<in> set fs"
    then show ?thesis using w by simp
  next
    assume "f \<in> set gs"
    then show ?thesis using Cons.IH a by simp
  qed
qed

lemma write_all_complete:
  assumes "snd (write_all h m sevs) = None"
  shows "fst (write_all h m sevs) = concat (map (\<lambda>sev. fst (write_severity h sev (get_bucket m sev))) sevs)"
  using assms
proof (induction sevs)
  case Nil
  then show ?case by simp
next
  case (Cons sev sevs)
  obtain fs r where w: "write_severity h sev (get_bucket m sev) = (fs, r)"
    by (cases "write_severity h sev (get_bucket m sev)")
  obtain gs q where a: "write_all h m sevs = (gs, q)" by (cases "write_all h m sevs")
  have r: "r = None" using Cons.prems w by (cases r) auto
  then have "q = None" using Cons.prems w a by simp
  then have "gs = concat (map (\<lambda>sev. fst (write_severity h sev (get_bucket m sev))) sevs)"
    using Cons.IH a by simp
  then show ?case using w a r by simp
qed

lemma created_example:
  "created_of example_host (example_issue k sev path ln) = Inr ''2024-01-15''"
  by (simp add: created_of_def example_issue_def example_host_def is_digit_def)

lemma group_single:
  "group_issues [example_issue ''K2'' ''TRIVIAL'' ''src/a.ts'' None] =
     [(''BLOCKER'', []), (''CRITICAL'', []), (''MAJOR'', []), (''MINOR'', []), (''INFO'', []),
      (''TRIVIAL'', [example_issue ''K2'' ''TRIVIAL'' ''src/a.ts'' None])]"
  by (simp add: group_issues_def SEVERITIES_def group_step_def has_def push_def example_issue_def)

lemma write_single:
  "writeBySeverity example_host [example_issue ''K2'' ''TRIVIAL'' ''src/a.ts'' None] =
     ([(''BLOCKER.md'', ''# BLOCKER issues for useago/useago_ago-chat'' @ [LF, LF] @ ''_No unresolved issues._'' @ [LF]),
       (''CRITICAL.md'', ''# CRITICAL issues for useago/useago_ago-chat'' @ [LF, LF] @ ''_No unresolved issues._'' @ [LF]),
       (''MAJOR.md'', ''# MAJOR issues for useago/useago_ago-chat'' @ [LF, LF] @ ''_No unresolved issues._'' @ [LF]),
       (''MINOR.md'', ''# MINOR issues for useago/useago_ago-chat'' @ [LF, LF] @ ''_No unresolved issues._'' @ [LF]),
       (''INFO.md'', ''# INFO issues for useago/useago_ago-chat'' @ [LF, LF] @ ''_No unresolved issues._'' @ [LF])],
      None)"
  unfolding writeBySeverity_def group_single
  by (simp add: sort_buckets_def SEVERITIES_def get_bucket_def write_severity_Nil headerFor_def
        placeholder_def ORG_def PROJECT_KEY_def on_branch_def example_host_def)

lemma String_nat_1 [simp]: "String_nat (Suc 0) = ''1''"
  by (simp add: String_nat_def digits.simps)

lemma group_one_major:
  "group_issues [example_issue ''K1'' ''MAJOR'' ''src/b.ts'' (Some 7)] =
     [(''BLOCKER'', []), (''CRITICAL'', []),
      (''MAJOR'', [example_issue ''K1'' ''MAJOR'' ''src/b.ts'' (Some 7)]),
      (''MINOR'', []), (''INFO'', [])]"
  by (simp add: group_issues_def SEVERITIES_def group_step_def has_def push_def example_issue_def)

lemma first_line_header: "LF \<notin> set l \<Longrightarrow> first_line (l @ LF # r) = l"
  by (induction l) (auto simp: first_line_def)

lemma write_one_major:
  "\<exists>table. fst (writeBySeverity example_host [example_issue ''K1'' ''MAJOR'' ''src/b.ts'' (Some 7)]) ! 2 =
     (''MAJOR1.md'', ''# MAJOR issues for useago/useago_ago-chat (Part 1/1)'' @ [LF] @ [LF] @ table)"
  unfolding writeBySeverity_def group_one_major
  apply (simp add: sort_buckets_def SEVERITIES_def get_bucket_def write_severity_def Let_def
        numFiles_of_def ISSUES_PER_FILE_def chunk_of_def slice_def renderTable_def renderRow_def
        created_example part_header_def ORG_def PROJECT_KEY_def on_branch_def)
  apply (simp add: example_host_def)
  done



lemma headerFor_text:
  "headerFor h sev =
     ''# '' @ sev @ '' issues for useago/useago_ago-chat''
       @ (if BRANCH h \<noteq> [] then '' on branch '' @ BRANCH h else []) @ [LF]"
  by (simp add: headerFor_def ORG_def PROJECT_KEY_def on_branch_def)

lemma part_header_text:
  "part_header h sev i n =
     ''# '' @ sev @ '' issues for useago/useago_ago-chat''
       @ (if BRANCH h \<noteq> [] then '' on branch '' @ BRANCH h else [])
       @ '' (Part '' @ String_nat i @ ''/'' @ String_nat n @ '')'' @ [LF]"
  by (simp add: part_header_def ORG_def PROJECT_KEY_def on_branch_def)

lemma written_file_shape:
  assumes "(name, content) \<in> set (fst (writeBySeverity h its))"
  shows "\<exists>sev \<in> set SEVERITIES.
          (filter (\<lambda>x. severity x = sev) its = []
             \<and> name = sev @ ''.md''
             \<and> content = headerFor h sev @ [LF] @ placeholder)
        \<or> (filter (\<lambda>x. severity x = sev) its \<noteq> []
             \<and> (\<exists>i < numFiles_of (length (filter (\<lambda>x. severity x = sev) its)).
                   name = sev @ String_nat (i + 1) @ ''.md''
                   \<and> prefix (part_header h sev (i + 1)
                               (numFiles_of (length (filter (\<lambda>x. severity x = sev) its))) @ [LF])
                        content))"
proof -
  let ?m = "sort_buckets h (group_issues its)"
  from assms obtain sev where sev: "sev \<in> set SEVERITIES"
    and f: "(name, content) \<in> set (fst (write_severity h sev (get_bucket ?m sev)))"
    unfolding writeBySeverity_def using write_all_files by blast
  let ?f = "filter (\<lambda>x. severity x = sev) its"
  let ?b = "get_bucket ?m sev"
  have b: "?b = array_sort (compareIssues h) ?f" by (rule sorted_bucket)
  have e: "?b = [] \<longleftrightarrow> ?f = []" using b by simp
  have l: "length ?b = length ?f" using b by (simp add: length_array_sort)
  from write_severity_files [OF f]
  have "(?f = [] \<and> name = sev @ ''.md'' \<and> content = headerFor h sev @ [LF] @ placeholder)
       \<or> (?f \<noteq> [] \<and> (\<exists>i < numFiles_of (length ?f). \<exists>table. renderTable h (chunk_of ?b i) = Inr table
             \<and> name = sev @ String_nat (i + 1) @ ''.md''
             \<and> content = part_header h sev (i + 1) (numFiles_of (length ?f)) @ [LF] @ table))"
    unfolding e l .
  then have "(?f = [] \<and> name = sev @ ''.md'' \<and> content = headerFor h sev @ [LF] @ placeholder)
       \<or> (?f \<noteq> [] \<and> (\<exists>i < numFiles_of (length ?f).
             name = sev @ String_nat (i + 1) @ ''.md''
             \<and> prefix (part_header h sev (i + 1) (numFiles_of (length ?f)) @ [LF]) content))"
    by auto
  then show ?thesis using sev by blast
qed

lemma write_one_major_length:
  "length (fst (writeBySeverity example_host [example_issue ''K1'' ''MAJOR'' ''src/b.ts'' (Some 7)])) = 5"
  unfolding writeBySeverity_def group_one_major
  apply (simp add: sort_buckets_def SEVERITIES_def get_bucket_def write_severity_def Let_def
        numFiles_of_def ISSUES_PER_FILE_def chunk_of_def slice_def renderTable_def renderRow_def
        created_example)
  done


lemma known_prefix:
  "sev \<in> set SEVERITIES \<Longrightarrow> sev' \<in> set SEVERITIES \<Longrightarrow> prefix sev (sev' @ rest) \<longleftrightarrow> sev = sev'"
  by (auto simp: SEVERITIES_def)

lemma write_severity_names:
  assumes "f \<in> set (fst (write_severity h sev' b))"
  shows "\<exists>rest. fst f = sev' @ rest"
proof -
  obtain name content where f: "f = (name, content)" by (cases f)
  then have "(name, content) \<in> set (fst (write_severity h sev' b))" using assms by simp
  from write_severity_files [OF this] show ?thesis using f by auto
qed

lemma filter_other_severity:
  assumes "sev \<in> set SEVERITIES" "sev' \<in> set SEVERITIES" "sev' \<noteq> sev"
  shows "filter (\<lambda>f. prefix sev (fst f)) (fst (write_severity h sev' b)) = []"
  unfolding filter_empty_conv
proof
  fix f assume "f \<in> set (fst (write_severity h sev' b))"
  then obtain rest where "fst f = sev' @ rest" using write_severity_names by blast
  then show "\<not> prefix sev (fst f)" using known_prefix [OF assms(1,2)] assms(3) by simp
qed

lemma filter_concat_one:
  assumes "distinct xs" "x \<in> set xs"
    and "\<And>y. y \<in> set xs \<Longrightarrow> y \<noteq> x \<Longrightarrow> filter P (g y) = []"
  shows "filter P (concat (map g xs)) = filter P (g x)"
  using assms
proof (induction xs)
  case Nil
  then show ?case by simp
next
  case (Cons y ys)
  show ?case
  proof (cases "y = x")
    case True
    then have "x \<notin> set ys" using Cons.prems(1) by simp
    then have "\<And>z. z \<in> set ys \<Longrightarrow> filter P (g z) = []" using Cons.prems(3) by auto
    then have "filter P (concat (map g ys)) = []" by (induction ys) auto
    then show ?thesis using True by simp
  next
    case False
    then have "filter P (g y) = []" using Cons.prems(3) by simp
    moreover have "filter P (concat (map g ys)) = filter P (g x)"
      using Cons.IH Cons.prems False by auto
    ultimately show ?thesis by simp
  qed
qed

lemma distinct_SEVERITIES: "distinct SEVERITIES"
  by (simp add: SEVERITIES_def)

lemma empty_bucket_file:
  assumes k: "sev \<in> set SEVERITIES" and n: "\<forall>it \<in> set its. severity it \<noteq> sev"
    and c: "snd (writeBySeverity h its) = None"
  shows "filter (\<lambda>f. prefix sev (fst f)) (fst (writeBySeverity h its)) =
           [(sev @ ''.md'', headerFor h sev @ [LF] @ placeholder)]"
proof -
  let ?m = "sort_buckets h (group_issues its)"
  let ?g = "\<lambda>s. fst (write_severity h s (get_bucket ?m s))"
  have "filter (\<lambda>x. severity x = sev) its = []"
    using n unfolding filter_empty_conv by blast
  then have "get_bucket ?m sev = []" by (simp add: sorted_bucket)
  then have own: "?g sev = [(sev @ ''.md'', headerFor h sev @ [LF] @ placeholder)]"
    by (simp add: write_severity_Nil)
  have all: "fst (writeBySeverity h its) = concat (map ?g SEVERITIES)"
    using c unfolding writeBySeverity_def by (rule write_all_complete)
  have "filter (\<lambda>f. prefix sev (fst f)) (concat (map ?g SEVERITIES)) = filter (\<lambda>f. prefix sev (fst f)) (?g sev)"
  proof (rule filter_concat_one)
    show "distinct SEVERITIES" by (rule distinct_SEVERITIES)
    show "sev \<in> set SEVERITIES" by (rule k)
    fix y assume "y \<in> set SEVERITIES" "y \<noteq> sev"
    then show "filter (\<lambda>f. prefix sev (fst f)) (?g y) = []"
      using k by (intro filter_other_severity) simp_all
  qed
  then show ?thesis unfolding all own by simp
qed


lemma write_one_major_complete:
  "snd (writeBySeverity example_host [example_issue ''K1'' ''MAJOR'' ''src/b.ts'' (Some 7)]) = None"
  unfolding writeBySeverity_def group_one_major
  apply (simp add: sort_buckets_def SEVERITIES_def get_bucket_def write_severity_def Let_def
        numFiles_of_def ISSUES_PER_FILE_def chunk_of_def slice_def renderTable_def renderRow_def
        created_example)
  done


text \<open>
  Claim C1. A record whose severity is none of the five known ones gets a bucket of its
  own in the grouping, and that bucket is sorted like the others. The loop that writes
  the files runs over the five known severities only, so no file is written for the new
  bucket: for one record of severity \<open>TRIVIAL\<close> the run writes the five placeholder
  files and nothing else.
\<close>

theorem unrecognized_severity_not_written:
  "group_issues [example_issue ''K2'' ''TRIVIAL'' ''src/a.ts'' None] =
     [(''BLOCKER'', []), (''CRITICAL'', []), (''MAJOR'', []), (''MINOR'', []), (''INFO'', []),
      (''TRIVIAL'', [example_issue ''K2'' ''TRIVIAL'' ''src/a.ts'' None])]
   \<and> writeBySeverity example_host [example_issue ''K2'' ''TRIVIAL'' ''src/a.ts'' None] =
     ([(''BLOCKER.md'', ''# BLOCKER issues for useago/useago_ago-chat'' @ [LF, LF] @ ''_No unresolved issues._'' @ [LF]),
       (''CRITICAL.md'', ''# CRITICAL issues for useago/useago_ago-chat'' @ [LF, LF] @ ''_No unresolved issues._'' @ [LF]),
       (''MAJOR.md'', ''# MAJOR issues for useago/useago_ago-chat'' @ [LF, LF] @ ''_No unresolved issues._'' @ [LF]),
       (''MINOR.md'', ''# MINOR issues for useago/useago_ago-chat'' @ [LF, LF] @ ''_No unresolved issues._'' @ [LF]),
       (''INFO.md'', ''# INFO issues for useago/useago_ago-chat'' @ [LF, LF] @ ''_No unresolved issues._'' @ [LF])],
      None)"
  using group_single write_single by simp

text \<open>
  Claim C7, as the code has it. Every file written belongs to one of the known severities
  and begins with a header line naming the severity, the organization, the project and,
  when set, the branch. The file of an empty bucket has exactly this header line. Every
  file of a bucket with records has the marker \<open>(Part i/n)\<close> at the end of the header
  line, \<open>n\<close> being the number of chunks of the bucket, also when \<open>n\<close> is 1.
\<close>

theorem part_marker_when_nonempty:
  "(\<forall>(name, content) \<in> set (fst (writeBySeverity h its)).
      \<exists>sev \<in> set SEVERITIES.
          (filter (\<lambda>x. severity x = sev) its = []
             \<and> name = sev @ ''.md''
             \<and> content = headerFor h sev @ [LF] @ placeholder)
        \<or> (filter (\<lambda>x. severity x = sev) its \<noteq> []
             \<and> (\<exists>i < numFiles_of (length (filter (\<lambda>x. severity x = sev) its)).
                   name = sev @ String_nat (i + 1) @ ''.md''
                   \<and> prefix (part_header h sev (i + 1)
                               (numFiles_of (length (filter (\<lambda>x. severity x = sev) its))) @ [LF])
                        content)))
   \<and> (\<forall>sev. headerFor h sev =
         ''# '' @ sev @ '' issues for useago/useago_ago-chat''
           @ (if BRANCH h \<noteq> [] then '' on branch '' @ BRANCH h else []) @ [LF])
   \<and> (\<forall>sev i n. part_header h sev i n =
         ''# '' @ sev @ '' issues for useago/useago_ago-chat''
           @ (if BRANCH h \<noteq> [] then '' on branch '' @ BRANCH h else [])
           @ '' (Part '' @ String_nat i @ ''/'' @ String_nat n @ '')'' @ [LF])"
proof (intro conjI)
  show "\<forall>(name, content) \<in> set (fst (writeBySeverity h its)).
      \<exists>sev \<in> set SEVERITIES.
          (filter (\<lambda>x. severity x = sev) its = []
             \<and> name = sev @ ''.md''
             \<and> content = headerFor h sev @ [LF] @ placeholder)
        \<or> (filter (\<lambda>x. severity x = sev) its \<noteq> []
             \<and> (\<exists>i < numFiles_of (length (filter (\<lambda>x. severity x = sev) its)).
                   name = sev @ String_nat (i + 1) @ ''.md''
                   \<and> prefix (part_header h sev (i + 1)
                               (numFiles_of (length (filter (\<lambda>x. severity x = sev) its))) @ [LF])
                        content))"
  proof (intro ballI, clarify)
    fix name content assume "(name, content) \<in> set (fst (writeBySeverity h its))"
    then show "\<exists>sev \<in> set SEVERITIES.
          (filter (\<lambda>x. severity x = sev) its = []
             \<and> name = sev @ ''.md''
             \<and> content = headerFor h sev @ [LF] @ placeholder)
        \<or> (filter (\<lambda>x. severity x = sev) its \<noteq> []
             \<and> (\<exists>i < numFiles_of (length (filter (\<lambda>x. severity x = sev) its)).
                   name = sev @ String_nat (i + 1) @ ''.md''
                   \<and> prefix (part_header h sev (i + 1)
                               (numFiles_of (length (filter (\<lambda>x. severity x = sev) its))) @ [LF])
                        content))"
      by (rule written_file_shape)
  qed
  show "\<forall>sev. headerFor h sev =
         ''# '' @ sev @ '' issues for useago/useago_ago-chat''
           @ (if BRANCH h \<noteq> [] then '' on branch '' @ BRANCH h else []) @ [LF]"
    by (intro allI) (rule headerFor_text)
  show "\<forall>sev i n. part_header h sev i n =
         ''# '' @ sev @ '' issues for useago/useago_ago-chat''
           @ (if BRANCH h \<noteq> [] then '' on branch '' @ BRANCH h else [])
           @ '' (Part '' @ String_nat i @ ''/'' @ String_nat n @ '')'' @ [LF]"
    by (intro allI) (rule part_header_text)
qed

theorem part_marker_when_nonempty_witness:
  "fst (writeBySeverity example_host [example_issue ''K1'' ''MAJOR'' ''src/b.ts'' (Some 7)]) ! 2
     \<in> set (fst (writeBySeverity example_host [example_issue ''K1'' ''MAJOR'' ''src/b.ts'' (Some 7)]))
   \<and> fst (fst (writeBySeverity example_host [example_issue ''K1'' ''MAJOR'' ''src/b.ts'' (Some 7)]) ! 2)
       = ''MAJOR1.md''
   \<and> (\<exists>sev \<in> set SEVERITIES. \<exists>i < 1.
         ''MAJOR1.md'' = sev @ String_nat (i + 1) @ ''.md''
         \<and> prefix (part_header example_host sev (i + 1) 1 @ [LF])
              (snd (fst (writeBySeverity example_host
                           [example_issue ''K1'' ''MAJOR'' ''src/b.ts'' (Some 7)]) ! 2)))"
proof -
  let ?one = "[example_issue ''K1'' ''MAJOR'' ''src/b.ts'' (Some 7)]"
  let ?W = "fst (writeBySeverity example_host ?one)"
  obtain table where t: "?W ! 2 =
     (''MAJOR1.md'', ''# MAJOR issues for useago/useago_ago-chat (Part 1/1)'' @ [LF] @ [LF] @ table)"
    using write_one_major by blast
  have m: "?W ! 2 \<in> set ?W" using write_one_major_length by (intro nth_mem) simp
  have "\<forall>(name, content) \<in> set ?W.
      \<exists>sev \<in> set SEVERITIES.
          (filter (\<lambda>x. severity x = sev) ?one = []
             \<and> name = sev @ ''.md''
             \<and> content = headerFor example_host sev @ [LF] @ placeholder)
        \<or> (filter (\<lambda>x. severity x = sev) ?one \<noteq> []
             \<and> (\<exists>i < numFiles_of (length (filter (\<lambda>x. severity x = sev) ?one)).
                   name = sev @ String_nat (i + 1) @ ''.md''
                   \<and> prefix (part_header example_host sev (i + 1)
                               (numFiles_of (length (filter (\<lambda>x. severity x = sev) ?one))) @ [LF])
                        content))"
    using part_marker_when_nonempty [of example_host ?one] by (elim conjE)
  then obtain sev where sev: "sev \<in> set SEVERITIES"
    and d: "(filter (\<lambda>x. severity x = sev) ?one = []
             \<and> ''MAJOR1.md'' = sev @ ''.md''
             \<and> snd (?W ! 2) = headerFor example_host sev @ [LF] @ placeholder)
        \<or> (filter (\<lambda>x. severity x = sev) ?one \<noteq> []
             \<and> (\<exists>i < numFiles_of (length (filter (\<lambda>x. severity x = sev) ?one)).
                   ''MAJOR1.md'' = sev @ String_nat (i + 1) @ ''.md''
                   \<and> prefix (part_header example_host sev (i + 1)
                               (numFiles_of (length (filter (\<lambda>x. severity x = sev) ?one))) @ [LF])
                        (snd (?W ! 2))))"
    using m t by fastforce
  have no: "''MAJOR1.md'' \<noteq> s @ ''.md''" if "s \<in> set SEVERITIES" for s
    using that by (auto simp: SEVERITIES_def)
  from d no [OF sev] have nonempty: "filter (\<lambda>x. severity x = sev) ?one \<noteq> []"
    and ex: "\<exists>i < numFiles_of (length (filter (\<lambda>x. severity x = sev) ?one)).
                   ''MAJOR1.md'' = sev @ String_nat (i + 1) @ ''.md''
                   \<and> prefix (part_header example_host sev (i + 1)
                               (numFiles_of (length (filter (\<lambda>x. severity x = sev) ?one))) @ [LF])
                        (snd (?W ! 2))"
    by auto
  from nonempty have "filter (\<lambda>x. severity x = sev) ?one = ?one"
    by (auto split: if_splits)
  then have n1: "numFiles_of (length (filter (\<lambda>x. severity x = sev) ?one)) = 1"
    by (simp add: numFiles_of_def ISSUES_PER_FILE_def)
  have "\<exists>i < 1. ''MAJOR1.md'' = sev @ String_nat (i + 1) @ ''.md''
         \<and> prefix (part_header example_host sev (i + 1) 1 @ [LF]) (snd (?W ! 2))"
    using ex unfolding n1 .
  then have "\<exists>sev \<in> set SEVERITIES. \<exists>i < 1.
         ''MAJOR1.md'' = sev @ String_nat (i + 1) @ ''.md''
         \<and> prefix (part_header example_host sev (i + 1) 1 @ [LF]) (snd (?W ! 2))"
    using sev by blast
  moreover have "fst (?W ! 2) = ''MAJOR1.md''" using t by simp
  ultimately show ?thesis using m by blast
qed

text \<open>
  A bucket with a single record has a single chunk, and the header line of its file
  ends with \<open>(Part 1/1)\<close>: it is not the header line without a marker.
\<close>

theorem single_chunk_part_marker_counterexample:
  "numFiles_of (length [example_issue ''K1'' ''MAJOR'' ''src/b.ts'' (Some 7)]) = 1
   \<and> fst (fst (writeBySeverity example_host [example_issue ''K1'' ''MAJOR'' ''src/b.ts'' (Some 7)]) ! 2)
       = ''MAJOR1.md''
   \<and> first_line (snd (fst (writeBySeverity example_host
                              [example_issue ''K1'' ''MAJOR'' ''src/b.ts'' (Some 7)]) ! 2))
       = ''# MAJOR issues for useago/useago_ago-chat (Part 1/1)''
   \<and> first_line (snd (fst (writeBySeverity example_host
                              [example_issue ''K1'' ''MAJOR'' ''src/b.ts'' (Some 7)]) ! 2))
       \<noteq> first_line (headerFor example_host ''MAJOR'')"
proof -
  obtain table where t: "fst (writeBySeverity example_host [example_issue ''K1'' ''MAJOR'' ''src/b.ts'' (Some 7)]) ! 2 =
     (''MAJOR1.md'', ''# MAJOR issues for useago/useago_ago-chat (Part 1/1)'' @ [LF] @ [LF] @ table)"
    using write_one_major by blast
  have n: "numFiles_of (length [example_issue ''K1'' ''MAJOR'' ''src/b.ts'' (Some 7)]) = 1"
    by (simp add: numFiles_of_def ISSUES_PER_FILE_def)
  have l: "LF \<notin> set ''# MAJOR issues for useago/useago_ago-chat (Part 1/1)''"
    by (simp add: LF_def)
  have f: "first_line (''# MAJOR issues for useago/useago_ago-chat (Part 1/1)'' @ LF # LF # table)
           = ''# MAJOR issues for useago/useago_ago-chat (Part 1/1)''"
    using l by (rule first_line_header)
  have l': "LF \<notin> set ''# MAJOR issues for useago/useago_ago-chat''"
    by (simp add: LF_def)
  have "headerFor example_host ''MAJOR'' = ''# MAJOR issues for useago/useago_ago-chat'' @ LF # []"
    by (simp add: headerFor_def ORG_def PROJECT_KEY_def on_branch_def example_host_def)
  then have g: "first_line (headerFor example_host ''MAJOR'') = ''# MAJOR issues for useago/useago_ago-chat''"
    using first_line_header [OF l', of "[]"] by simp
  show ?thesis unfolding t using n f g by simp
qed

text \<open>
  Claim C9. When the writer runs to its end, a known severity with no record has exactly
  one file: its name is the severity followed by \<open>.md\<close>, with no chunk number, and its
  content is the header line, an empty line and the sentence \<open>_No unresolved issues._\<close>.
  Rendering no record always gives this sentence.
\<close>

theorem empty_bucket_placeholder:
  assumes "sev \<in> set SEVERITIES" and "\<forall>it \<in> set its. severity it \<noteq> sev"
    and "snd (writeBySeverity h its) = None"
  shows "filter (\<lambda>f. prefix sev (fst f)) (fst (writeBySeverity h its)) =
           [(sev @ ''.md'', headerFor h sev @ [LF] @ ''_No unresolved issues._'' @ [LF])]
       \<and> write_severity h sev [] =
           ([(sev @ ''.md'', headerFor h sev @ [LF] @ ''_No unresolved issues._'' @ [LF])], None)
       \<and> renderTable h [] = Inr (''_No unresolved issues._'' @ [LF])"
  using empty_bucket_file [OF assms] by (simp add: write_severity_Nil placeholder_def)


theorem empty_bucket_placeholder_witness:
  "''INFO'' \<in> set SEVERITIES
   \<and> snd (writeBySeverity example_host [example_issue ''K1'' ''MAJOR'' ''src/b.ts'' (Some 7)]) = None
   \<and> filter (\<lambda>f. prefix ''INFO'' (fst f))
        (fst (writeBySeverity example_host [example_issue ''K1'' ''MAJOR'' ''src/b.ts'' (Some 7)])) =
       [(''INFO.md'', ''# INFO issues for useago/useago_ago-chat'' @ [LF, LF] @ ''_No unresolved issues._'' @ [LF])]"
proof -
  have k: "''INFO'' \<in> set SEVERITIES" by (simp add: SEVERITIES_def)
  have n: "\<forall>it \<in> set [example_issue ''K1'' ''MAJOR'' ''src/b.ts'' (Some 7)]. severity it \<noteq> ''INFO''"
    by (simp add: example_issue_def)
  have h: "headerFor example_host ''INFO'' = ''# INFO issues for useago/useago_ago-chat'' @ [LF]"
    by (simp add: headerFor_def ORG_def PROJECT_KEY_def on_branch_def example_host_def)
  show ?thesis
    using empty_bucket_placeholder [OF k n write_one_major_complete] k write_one_major_complete h
    by simp
qed

subsection \<open>Escaping\<close>

lemma LF_not_special [simp]:
  "LF \<noteq> CHR ''|''" "LF \<noteq> CHR 0x5C" "LF \<noteq> CR" "CR \<noteq> CHR ''|''" "CR \<noteq> LF"
  "CHR ''|'' \<noteq> LF" "CHR ''|'' \<noteq> CR" "CHR 0x5C \<noteq> LF" "CHR 0x5C \<noteq> CR"
  by (simp_all add: LF_def CR_def)

lemma LF_notin_br [simp]: "LF \<notin> set ''<br>''"
  by (simp add: LF_def)

lemma LF_notin_replace_newlines: "LF \<notin> set (replace_newlines s)"
  by (induction s rule: replace_newlines.induct) (auto simp: LF_def)

lemma LF_notin_mdEscape: "LF \<notin> set (mdEscape s)"
  by (simp add: mdEscape_def LF_notin_replace_newlines)

lemma count_LF_mdEscape [simp]: "count_list (mdEscape s) LF = 0"
  using LF_notin_mdEscape [of s] by (simp add: count_list_0_iff)

lemma no_raw_pipe_escape_pipes: "no_raw_pipe esc (escape_pipes s)"
  by (induction s arbitrary: esc) auto

lemma no_raw_pipe_br [simp]: "no_raw_pipe esc (''<br>'' @ r) = no_raw_pipe False r"
  by simp

lemma no_raw_pipe_replace_newlines:
  "no_raw_pipe esc s \<Longrightarrow> no_raw_pipe esc (replace_newlines s)"
proof (induction s arbitrary: esc rule: replace_newlines.induct)
  case 1
  then show ?case by simp
next
  case (2 c)
  then show ?case by auto
next
  case (3 c d ds)
  show ?case
  proof (cases "c = LF")
    case True
    then have "no_raw_pipe False (d # ds)" using "3.prems" by simp
    then have "no_raw_pipe False (replace_newlines (d # ds))" using True "3.IH"(1) by blast
    then show ?thesis using True by simp
  next
    case nl: False
    show ?thesis
    proof (cases "c = CR \<and> d = LF")
      case True
      then have "no_raw_pipe False ds" using "3.prems" by simp
      then have "no_raw_pipe False (replace_newlines ds)" using nl True "3.IH"(2) by blast
      then show ?thesis using nl True by simp
    next
      case False
      have "no_raw_pipe (c = CHR 0x5C) (d # ds)" using "3.prems" by simp
      then have "no_raw_pipe (c = CHR 0x5C) (replace_newlines (d # ds))"
        using nl False "3.IH"(3) by blast
      moreover have "c = CHR ''|'' \<longrightarrow> esc" using "3.prems" by simp
      ultimately show ?thesis using nl False by auto
    qed
  qed
qed

lemma pipes_escaped_mdEscape: "pipes_escaped (mdEscape s)"
  unfolding pipes_escaped_def mdEscape_def
  by (rule no_raw_pipe_replace_newlines) (rule no_raw_pipe_escape_pipes)

lemma replace_newlines_plain:
  "c \<noteq> LF \<Longrightarrow> c \<noteq> CR \<Longrightarrow> replace_newlines (c # r) = c # replace_newlines r"
  by (cases r) auto

lemma replace_newlines_LF: "replace_newlines (LF # r) = ''<br>'' @ replace_newlines r"
  by (cases r) auto

lemma replace_newlines_CRLF: "replace_newlines (CR # LF # r) = ''<br>'' @ replace_newlines r"
  by simp

lemma replace_newlines_CR:
  "d \<noteq> LF \<Longrightarrow> replace_newlines (CR # d # r) = CR # replace_newlines (d # r)"
  by simp

lemma escape_pipes_pipe:
  "replace_newlines (escape_pipes (CHR ''|'' # cs)) =
     CHR 0x5C # CHR ''|'' # replace_newlines (escape_pipes cs)"
  by (simp add: replace_newlines_plain)

lemma mdEscape_escape_each: "mdEscape s = escape_each s"
  unfolding mdEscape_def
proof (induction s rule: escape_each.induct)
  case 1
  then show ?case by simp
next
  case (2 c)
  then show ?case by auto
next
  case (3 c d ds)
  show ?case
  proof (cases "c = CHR ''|''")
    case True
    then have "replace_newlines (escape_pipes (d # ds)) = escape_each (d # ds)"
      by (rule "3.IH"(1))
    then show ?thesis using True by (simp only: escape_pipes_pipe escape_each.simps) simp
  next
    case np: False
    show ?thesis
    proof (cases "c = LF")
      case True
      have "replace_newlines (escape_pipes (d # ds)) = escape_each (d # ds)"
        using np True by (rule "3.IH"(2))
      moreover have "escape_pipes (c # d # ds) = LF # escape_pipes (d # ds)" using True by simp
      ultimately show ?thesis using True by (simp only: replace_newlines_LF escape_each.simps) simp
    next
      case nl: False
      show ?thesis
      proof (cases "c = CR \<and> d = LF")
        case True
        have "replace_newlines (escape_pipes ds) = escape_each ds"
          using np nl True by (rule "3.IH"(3))
        moreover have "escape_pipes (c # d # ds) = CR # LF # escape_pipes ds" using True by simp
        ultimately show ?thesis
          using True by (simp only: replace_newlines_CRLF escape_each.simps) simp
      next
        case False
        have ih: "replace_newlines (escape_pipes (d # ds)) = escape_each (d # ds)"
          using np nl False by (rule "3.IH"(4))
        have e: "escape_pipes (c # d # ds) = c # escape_pipes (d # ds)" using np by simp
        have "replace_newlines (c # escape_pipes (d # ds)) = c # replace_newlines (escape_pipes (d # ds))"
        proof (cases "c = CR")
          case True
          then have "d \<noteq> LF" using False by simp
          then show ?thesis using True by (cases "d = CHR ''|''") simp_all
        next
          case False
          then show ?thesis using nl by (rule replace_newlines_plain [rotated])
        qed
        then show ?thesis using ih e np nl False by (auto simp del: replace_newlines.simps escape_pipes.simps)
      qed
    qed
  qed
qed

lemma hex_digit_mem: "n < 16 \<Longrightarrow> hex_digit n \<in> set ''0123456789ABCDEF''"
  unfolding hex_digit_def by (rule nth_mem) simp

lemma hex_digit_not_LF: "n < 16 \<Longrightarrow> hex_digit n \<noteq> LF"
proof -
  assume "n < 16"
  then have "hex_digit n \<in> set ''0123456789ABCDEF''" by (rule hex_digit_mem)
  moreover have "LF \<notin> set ''0123456789ABCDEF''" by (simp add: LF_def)
  ultimately show ?thesis by metis
qed

lemma url_safe_not_LF: "url_safe c \<Longrightarrow> c \<noteq> LF"
  by (auto simp: url_safe_def LF_def Let_def)

lemma of_char_div16: "(of_char c :: nat) div 16 < 16"
proof -
  have "(of_char c :: nat) < 256" by simp
  then show ?thesis by (simp add: less_mult_imp_div_less)
qed

lemma LF_notin_urlencode_char: "LF \<notin> set (urlencode_char c)"
proof -
  have "hex_digit ((of_char c :: nat) div 16) \<noteq> LF"
    by (rule hex_digit_not_LF) (rule of_char_div16)
  moreover have "hex_digit ((of_char c :: nat) mod 16) \<noteq> LF"
    by (rule hex_digit_not_LF) simp
  moreover have "CHR ''%'' \<noteq> LF" "CHR ''+'' \<noteq> LF" by (simp_all add: LF_def)
  ultimately show ?thesis
    using url_safe_not_LF [of c] by (auto simp: urlencode_char_def)
qed

lemma LF_notin_urlencode: "LF \<notin> set (urlencode s)"
  by (induction s) (auto simp: urlencode_def LF_notin_urlencode_char)

lemma LF_notin_issueUrl: "LF \<notin> set (issueUrl k)"
proof -
  have "LF \<notin> set ''https://sonarcloud.io/project/issues?''" "LF \<notin> set ''id=''"
    "LF \<notin> set ''&issues=''" "LF \<notin> set ''&open=''"
    by (simp_all add: LF_def)
  then show ?thesis
    using LF_notin_urlencode by (simp add: issueUrl_def)
qed

lemma renderRow_text:
  assumes "renderRow h it = Inr row"
  shows "\<exists>created. created_of h it = Inr created
     \<and> row = ''| '' @ ''['' @ key it @ '']('' @ issueUrl (key it) @ '')''
           @ '' | '' @ mdEscape (type it) @ '' | '' @ mdEscape (rule it)
           @ '' | '' @ mdEscape (severity it) @ '' | '' @ mdEscape (status it)
           @ '' | '' @ mdEscape (extractFilePath (component it))
           @ '' | '' @ mdEscape (case line it of Some n \<Rightarrow> String_int n | None \<Rightarrow> [])
           @ '' | '' @ mdEscape (message it) @ '' | '' @ mdEscape created @ '' |''"
  using assms by (cases "created_of h it") (auto simp: renderRow_def Let_def)

lemma count_LF_row:
  assumes "renderRow h it = Inr row"
  shows "count_list row LF = count_list (key it) LF"
proof -
  from renderRow_text [OF assms] obtain created where
    row: "row = ''| '' @ ''['' @ key it @ '']('' @ issueUrl (key it) @ '')''
           @ '' | '' @ mdEscape (type it) @ '' | '' @ mdEscape (rule it)
           @ '' | '' @ mdEscape (severity it) @ '' | '' @ mdEscape (status it)
           @ '' | '' @ mdEscape (extractFilePath (component it))
           @ '' | '' @ mdEscape (case line it of Some n \<Rightarrow> String_int n | None \<Rightarrow> [])
           @ '' | '' @ mdEscape (message it) @ '' | '' @ mdEscape created @ '' |''"
    by blast
  have lit: "count_list ''| '' LF = 0" "count_list ''['' LF = 0" "count_list '']('' LF = 0"
    "count_list '')'' LF = 0" "count_list '' | '' LF = 0" "count_list '' |'' LF = 0"
    by (simp_all add: LF_def)
  have url: "count_list (issueUrl (key it)) LF = 0"
    using LF_notin_issueUrl by (simp add: count_list_0_iff)
  show ?thesis
    unfolding row count_list_append lit url count_LF_mdEscape by simp
qed

lemma render_example:
  "renderRow example_host (example_issue ''K1'' ''MAJOR'' ''src/b.ts'' (Some 7)) =
     Inr (''| [K1](https://sonarcloud.io/project/issues?id=useago_ago-chat&issues=K1&open=K1)''
          @ '' | BUG | typescript:S1234 | MAJOR | OPEN | src/b.ts | 7 | a'' @ [CHR 0x5C]
          @ ''|b<br>c | 2024-01-15 |'')"
  by (simp add: renderRow_def created_example Let_def)
     (simp add: example_issue_def issueUrl_def urlencode_def urlencode_char_def url_safe_def
        PROJECT_KEY_def mdEscape_def extractFilePath_def String_int_def digits.simps LF_def CR_def)


text \<open>
  Claim C10. The message cell of a rendered row is \<open>mdEscape\<close> of the message: every
  pipe has a backslash put before it, every LF and every CR LF is replaced by the marker
  \<open><br>\<close>, and nothing else changes. So the cell holds no LF, and every pipe in it
  follows a backslash. Every cell but the key link goes through \<open>mdEscape\<close> and the link
  address is URL-encoded, so the row has exactly the line feeds of the key: with a key
  that has none, the row is a single line.
\<close>

theorem message_cell_escaped:
  assumes "renderRow h it = Inr row"
  shows "LF \<notin> set (mdEscape (message it))
     \<and> pipes_escaped (mdEscape (message it))
     \<and> mdEscape (message it) = escape_each (message it)
     \<and> (\<exists>created. created_of h it = Inr created
          \<and> row = ''| '' @ ''['' @ key it @ '']('' @ issueUrl (key it) @ '')''
               @ '' | '' @ mdEscape (type it) @ '' | '' @ mdEscape (rule it)
               @ '' | '' @ mdEscape (severity it) @ '' | '' @ mdEscape (status it)
               @ '' | '' @ mdEscape (extractFilePath (component it))
               @ '' | '' @ mdEscape (case line it of Some n \<Rightarrow> String_int n | None \<Rightarrow> [])
               @ '' | '' @ mdEscape (message it) @ '' | '' @ mdEscape created @ '' |'')
     \<and> count_list row LF = count_list (key it) LF
     \<and> (LF \<notin> set (key it) \<longrightarrow> LF \<notin> set row)"
proof (intro conjI)
  show "LF \<notin> set (mdEscape (message it))" by (rule LF_notin_mdEscape)
  show "pipes_escaped (mdEscape (message it))" by (rule pipes_escaped_mdEscape)
  show "mdEscape (message it) = escape_each (message it)" by (rule mdEscape_escape_each)
  show "\<exists>created. created_of h it = Inr created
          \<and> row = ''| '' @ ''['' @ key it @ '']('' @ issueUrl (key it) @ '')''
               @ '' | '' @ mdEscape (type it) @ '' | '' @ mdEscape (rule it)
               @ '' | '' @ mdEscape (severity it) @ '' | '' @ mdEscape (status it)
               @ '' | '' @ mdEscape (extractFilePath (component it))
               @ '' | '' @ mdEscape (case line it of Some n \<Rightarrow> String_int n | None \<Rightarrow> [])
               @ '' | '' @ mdEscape (message it) @ '' | '' @ mdEscape created @ '' |''"
    using assms by (rule renderRow_text)
  show c: "count_list row LF = count_list (key it) LF" using assms by (rule count_LF_row)
  show "LF \<notin> set (key it) \<longrightarrow> LF \<notin> set row"
    using c by (metis count_list_0_iff)
qed

theorem message_cell_escaped_witness:
  "renderRow example_host (example_issue ''K1'' ''MAJOR'' ''src/b.ts'' (Some 7)) =
     Inr (''| [K1](https://sonarcloud.io/project/issues?id=useago_ago-chat&issues=K1&open=K1)''
          @ '' | BUG | typescript:S1234 | MAJOR | OPEN | src/b.ts | 7 | a'' @ [CHR 0x5C]
          @ ''|b<br>c | 2024-01-15 |'')
   \<and> message (example_issue ''K1'' ''MAJOR'' ''src/b.ts'' (Some 7)) = ''a|b'' @ [CR, LF] @ ''c''
   \<and> mdEscape (''a|b'' @ [CR, LF] @ ''c'') = ''a'' @ [CHR 0x5C] @ ''|b<br>c''
   \<and> pipes_escaped (mdEscape (''a|b'' @ [CR, LF] @ ''c''))
   \<and> LF \<notin> set (''| [K1](https://sonarcloud.io/project/issues?id=useago_ago-chat&issues=K1&open=K1)''
          @ '' | BUG | typescript:S1234 | MAJOR | OPEN | src/b.ts | 7 | a'' @ [CHR 0x5C]
          @ ''|b<br>c | 2024-01-15 |'')"
proof -
  let ?x = "example_issue ''K1'' ''MAJOR'' ''src/b.ts'' (Some 7)"
  note w = message_cell_escaped [OF render_example]
  have m: "message ?x = ''a|b'' @ [CR, LF] @ ''c''" by (simp add: example_issue_def)
  have k: "LF \<notin> set (key ?x)" by (simp add: example_issue_def LF_def)
  have p: "pipes_escaped (mdEscape (message ?x))" using w by (elim conjE)
  have "LF \<notin> set (key ?x) \<longrightarrow>
        LF \<notin> set (''| [K1](https://sonarcloud.io/project/issues?id=useago_ago-chat&issues=K1&open=K1)''
          @ '' | BUG | typescript:S1234 | MAJOR | OPEN | src/b.ts | 7 | a'' @ [CHR 0x5C]
          @ ''|b<br>c | 2024-01-15 |'')"
    using w by (elim conjE)
  then have l: "LF \<notin> set (''| [K1](https://sonarcloud.io/project/issues?id=useago_ago-chat&issues=K1&open=K1)''
          @ '' | BUG | typescript:S1234 | MAJOR | OPEN | src/b.ts | 7 | a'' @ [CHR 0x5C]
          @ ''|b<br>c | 2024-01-15 |'')"
    using k by blast
  have e: "mdEscape (''a|b'' @ [CR, LF] @ ''c'') = ''a'' @ [CHR 0x5C] @ ''|b<br>c''"
    by (simp add: mdEscape_def LF_def CR_def)
  have p': "pipes_escaped (mdEscape (''a|b'' @ [CR, LF] @ ''c''))" using p unfolding m .
  from render_example m e p' l show ?thesis by (intro conjI)
qed

end
